theory Spec2Isabelle
  imports Complex_Main "HOL-Library.Word"
begin

unbundle bit_operations_syntax

section \<open>Data model of package edgeimpulse (runner.go)\<close>

text \<open>
  Bytes on the wire are 8-bit words. Go's \<^verbatim>\<open>float64\<close> fields are carried as reals: the
  model never does floating-point arithmetic on them, and every feature the two pipelines
  produce is an integer below \<open>2 ^ 24\<close> in magnitude, which \<^verbatim>\<open>float64\<close> holds exactly.
  Go's \<^verbatim>\<open>int\<close> and \<^verbatim>\<open>int64\<close> fields are integers; no claim depends on their overflow.
\<close>

type_synonym byte = "8 word"
type_synonym float64 = real

text \<open>\<^verbatim>\<open>ModelType\<close> and \<^verbatim>\<open>SensorType\<close> are string types with named constants.\<close>

type_synonym ModelType = string
type_synonym SensorType = string

definition ModelTypeClassification :: ModelType where
  "ModelTypeClassification = ''classification''"

definition ModelTypeObjectDetection :: ModelType where
  "ModelTypeObjectDetection = ''object_detection''"

definition SensorTypeUnknown :: SensorType where
  "SensorTypeUnknown = ''unknown''"

definition SensorTypeMicrophone :: SensorType where
  "SensorTypeMicrophone = ''microphone''"

definition SensorTypeAccelerometer :: SensorType where
  "SensorTypeAccelerometer = ''accelerometer''"

definition SensorTypeCamera :: SensorType where
  "SensorTypeCamera = ''camera''"

record ModelParameters =
  ModelType :: ModelType
  Sensor :: int
  SensorType :: SensorType
  IntervalMS :: float64
  Frequency :: float64
  InputFeaturesCount :: int
  ImageInputHeight :: int
  ImageInputWidth :: int
  ImageChannelCount :: int
  Labels :: "string list"
  LabelCount :: int
  HasAnomaly :: float64

record Project =
  DeployVersion :: int
  ProjectID :: int
  Name :: string
  Owner :: string

record RunnerResponse =
  ID :: int
  Success :: bool
  Error :: string

record runnerHelloRequest =
  HelloID :: int
  Hello :: int

record runnerHelloResponse =
  HelloStatus :: RunnerResponse
  HelloModelParameters :: ModelParameters
  HelloProject :: Project

record RunnerClassifyRequest =
  RequestID :: int
  Classify_data :: "float64 list"

record BoundingBox =
  BoxLabel :: string
  BoxValue :: float64
  BoxX :: int
  BoxY :: int
  BoxWidth :: int
  BoxHeight :: int

text \<open>
  A Go map or slice that is \<^verbatim>\<open>nil\<close> is \<open>None\<close>; the classification map is an
  association list.
\<close>

record RunnerClassifyResponse =
  ClassifyStatus :: RunnerResponse
  Classification :: "(string \<times> float64) list option"
  BoundingBoxes :: "BoundingBox list option"
  Anomaly :: float64
  TimingDSP :: float64
  TimingClassification :: float64
  TimingAnomaly :: float64

record RunnerOpts =
  WorkDir :: string
  TraceDir :: string

subsection \<open>The transport: a Unix domain socket to the model process\<close>

text \<open>
  The inbound side of the connection is the script of what each successive \<^verbatim>\<open>Read\<close> will
  deliver: a chunk of bytes, or a failure (the read deadline passing, a reset). An empty
  script is a read that gets nothing before the deadline. \<open>outbound\<close> lists the byte
  sequences written, in the order the model process receives them, and \<open>io_calls\<close>
  counts every \<^verbatim>\<open>Read\<close> and \<^verbatim>\<open>Write\<close> issued on the connection, failed ones included.
\<close>

datatype read_event = Data "byte list" | ReadFail

datatype io_error = UseOfClosedConn | BrokenPipe | DeadlineExceeded | ReadFailed

record conn =
  conn_closed :: bool
  peer_gone :: bool
  inbound :: "read_event list"
  outbound :: "byte list list"
  io_calls :: nat

definition conn_Write :: "byte list \<Rightarrow> conn \<Rightarrow> (io_error + unit) \<times> conn" where
  "conn_Write bs c =
     (let c' = c\<lparr>io_calls := Suc (io_calls c)\<rparr> in
      if conn_closed c then (Inl UseOfClosedConn, c')
      else if peer_gone c then (Inl BrokenPipe, c')
      else (Inr (), c'\<lparr>outbound := outbound c @ [bs]\<rparr>))"

text \<open>
  \<open>conn_Read n\<close> is \<^verbatim>\<open>Read\<close> into a buffer of \<open>n\<close> bytes: it takes at most \<open>n\<close> bytes
  of the next chunk and leaves the rest of that chunk for the next call.
\<close>

definition conn_Read :: "nat \<Rightarrow> conn \<Rightarrow> (io_error + byte list) \<times> conn" where
  "conn_Read n c =
     (let c' = c\<lparr>io_calls := Suc (io_calls c)\<rparr> in
      if conn_closed c then (Inl UseOfClosedConn, c')
      else (case inbound c of
              [] \<Rightarrow> (Inl DeadlineExceeded, c')
            | ReadFail # evs \<Rightarrow> (Inl ReadFailed, c'\<lparr>inbound := evs\<rparr>)
            | Data ch # evs \<Rightarrow>
                if length ch \<le> n then (Inr ch, c'\<lparr>inbound := evs\<rparr>)
                else (Inr (take n ch), c'\<lparr>inbound := Data (drop n ch) # evs\<rparr>)))"

text \<open>\<^verbatim>\<open>conn.Close()\<close>: its error (closing twice) is what the caller gets back.\<close>

definition conn_Close :: "conn \<Rightarrow> io_error option \<times> conn" where
  "conn_Close c =
     (if conn_closed c then (Some UseOfClosedConn, c)
      else (None, c\<lparr>conn_closed := True\<rparr>))"

subsection \<open>The JSON library\<close>

text \<open>
  \<^verbatim>\<open>encoding/json\<close> is not code of this repository, so it is a parameter of the model.
  \<open>scan buf\<close> is the decoder's scanner run over the bytes buffered so far: the length
  of the first complete JSON value, or that more input is needed, or a syntax error.
  \<open>marshal\<close> may refuse a value (a NaN among the features).
\<close>

datatype scan_result = Complete nat | Incomplete | Invalid

datatype request = HelloRequest runnerHelloRequest | ClassifyRequest RunnerClassifyRequest

record json_codec =
  scan :: "byte list \<Rightarrow> scan_result"
  marshal :: "request \<Rightarrow> byte list option"
  unmarshal_hello :: "byte list \<Rightarrow> runnerHelloResponse option"
  unmarshal_classify :: "byte list \<Rightarrow> RunnerClassifyResponse option"

datatype json_error = SyntaxError | UnmarshalError | IOError io_error

text \<open>
  \<^verbatim>\<open>Decoder.Decode\<close>: read from the connection until the buffer holds a complete value,
  then unmarshal it. The decoder asks for more than any chunk holds, so each refill
  takes a whole chunk. The result carries the decoded value with what is left in the
  decoder's buffer behind it (\<^verbatim>\<open>dec.Buffered()\<close>).
\<close>

fun readValue ::
  "(byte list \<Rightarrow> scan_result) \<Rightarrow> bool \<Rightarrow> byte list \<Rightarrow> read_event list \<Rightarrow> nat \<Rightarrow>
   (json_error + byte list \<times> byte list) \<times> read_event list \<times> nat" where
  "readValue sc shut buf evs k =
     (case sc buf of
        Complete n \<Rightarrow> (Inr (take n buf, drop n buf), evs, k)
      | Invalid \<Rightarrow> (Inl SyntaxError, evs, k)
      | Incomplete \<Rightarrow>
          if shut then (Inl (IOError UseOfClosedConn), evs, Suc k)
          else (case evs of
             [] \<Rightarrow> (Inl (IOError DeadlineExceeded), [], Suc k)
           | ReadFail # evs' \<Rightarrow> (Inl (IOError ReadFailed), evs', Suc k)
           | Data ch # evs' \<Rightarrow> readValue sc shut (buf @ ch) evs' (Suc k)))"

definition Decode ::
  "(byte list \<Rightarrow> scan_result) \<Rightarrow> (byte list \<Rightarrow> 'resp option) \<Rightarrow> conn \<Rightarrow>
   (json_error + 'resp \<times> byte list) \<times> conn" where
  "Decode sc unm c =
     (case readValue sc (conn_closed c) [] (inbound c) (io_calls c) of
        (Inl e, evs, k) \<Rightarrow> (Inl e, c\<lparr>inbound := evs, io_calls := k\<rparr>)
      | (Inr (doc, rest), evs, k) \<Rightarrow>
          (case unm doc of
             None \<Rightarrow> (Inl UnmarshalError, c\<lparr>inbound := evs, io_calls := k\<rparr>)
           | Some v \<Rightarrow> (Inr (v, rest), c\<lparr>inbound := evs, io_calls := k\<rparr>)))"

text \<open>
  \<open>frames sc doc\<close>: the scanner takes \<open>doc\<close> for exactly one value. It asks for more
  input on every proper prefix of \<open>doc\<close> and reports the value complete at its last byte,
  whatever follows. Go's scanner does so for a JSON object or array, which ends at its
  closing bracket.
\<close>

definition frames :: "(byte list \<Rightarrow> scan_result) \<Rightarrow> byte list \<Rightarrow> bool" where
  "frames sc doc \<longleftrightarrow>
     doc \<noteq> [] \<and> (\<forall>n<length doc. sc (take n doc) = Incomplete) \<and>
     (\<forall>rest. sc (doc @ rest) = Complete (length doc))"

subsection \<open>RunnerProcess\<close>

text \<open>
  \<open>cancel\<close> says whether the cancel function of the model process is set, \<open>conn\<close> is
  \<open>None\<close> while the Go field is \<^verbatim>\<open>nil\<close>. The mutex is not a field here: in this
  sequential model every call runs alone; the locking is modelled with the callers in
  the section on concurrent callers.
\<close>

record RunnerProcess =
  modelParams :: ModelParameters
  project :: Project
  opts :: RunnerOpts
  tempDir :: string
  cancel :: bool
  conn :: "conn option"
  lastID :: int

datatype error =
    AbsPathError
  | MakingTempDir
  | StartingModelProcess
  | OpeningRunnerSocket
  | NoSocketFromRunner
  | HelloToModel error
  | WritingJSON "io_error option"
  | ReadingJSON json_error
  | Classifying string
  | NilPointerPanic
  | SensorMismatch SensorType
  | MakeSlicePanic
  | ReadingAudio
  | RecorderError string

definition nextID :: "RunnerProcess \<Rightarrow> int \<times> RunnerProcess" where
  "nextID r = (lastID r + 1, r\<lparr>lastID := lastID r + 1\<rparr>)"

text \<open>
  \<^verbatim>\<open>transact\<close>: one request/response transaction. \<^verbatim>\<open>writeTrace\<close> only creates trace
  files and log lines; it touches neither the connection nor the result and is left out.
  \<^verbatim>\<open>SetReadDeadline\<close> is the reason a read can fail with nothing received.
  The encoder marshals the request before it touches the connection. After the response
  is decoded, an empty decoder buffer makes the client read one byte from the connection,
  ignoring what that read returns.
  On an error the Go caller also keeps the response value it passed in, which no caller
  in the repository reads; the model returns the error alone.
\<close>

definition transact ::
  "json_codec \<Rightarrow> (byte list \<Rightarrow> 'resp option) \<Rightarrow> ('resp \<Rightarrow> RunnerResponse) \<Rightarrow>
   request \<Rightarrow> RunnerProcess \<Rightarrow> (error + 'resp) \<times> RunnerProcess" where
  "transact js unm status req r =
     (case marshal js req of
        None \<Rightarrow> (Inl (WritingJSON None), r)
      | Some bs \<Rightarrow>
          (case conn r of
             None \<Rightarrow> (Inl NilPointerPanic, r)
           | Some c0 \<Rightarrow>
               (case conn_Write bs c0 of
                  (Inl e, c1) \<Rightarrow> (Inl (WritingJSON (Some e)), r\<lparr>conn := Some c1\<rparr>)
                | (Inr u, c1) \<Rightarrow>
                    (case Decode (scan js) unm c1 of
                       (Inl e, c2) \<Rightarrow> (Inl (ReadingJSON e), r\<lparr>conn := Some c2\<rparr>)
                     | (Inr (resp, buffered), c2) \<Rightarrow>
                         (let c3 = (if buffered = [] then snd (conn_Read 1 c2) else c2);
                              r' = r\<lparr>conn := Some c3\<rparr>
                          in if \<not> Success (status resp)
                             then (Inl (Classifying (Error (status resp))), r')
                             else (Inr resp, r'))))))"

text \<open>\<^verbatim>\<open>Classify\<close>: take the next id and run one transaction (under the mutex).\<close>

definition Classify ::
  "json_codec \<Rightarrow> float64 list \<Rightarrow> RunnerProcess \<Rightarrow>
   (error + RunnerClassifyResponse) \<times> RunnerProcess" where
  "Classify js data r =
     (let (i, r1) = nextID r;
          req = \<lparr>RequestID = i, Classify_data = data\<rparr>
      in transact js (unmarshal_classify js) ClassifyStatus (ClassifyRequest req) r1)"

subsection \<open>The operating system around the runner\<close>

text \<open>
  What \<^verbatim>\<open>NewRunnerProcess\<close> and \<^verbatim>\<open>Close\<close> ask of the operating system is a separate
  state: whether the model process runs, which directories exist, and whether removing a
  directory works. The answers the system gives during construction are its parameters.
\<close>

record os_state =
  proc_running :: bool
  dirs :: "string list"
  remove_fails :: bool

datatype dial_outcome = Connected conn | ENOENT | DialError

record os_answers =
  abs_path :: "string \<Rightarrow> string option"
  temp_dir :: "string option"
  start_ok :: bool
  dial :: "nat \<Rightarrow> dial_outcome"

definition RemoveAll :: "string \<Rightarrow> os_state \<Rightarrow> bool \<times> os_state" where
  "RemoveAll d w =
     (if remove_fails w then (False, w) else (True, w\<lparr>dirs := removeAll d (dirs w)\<rparr>))"

text \<open>
  \<^verbatim>\<open>Close\<close>: cancel the model process, close the connection, remove the temporary
  directory. The results of \<^verbatim>\<open>conn.Close()\<close> and \<^verbatim>\<open>os.RemoveAll\<close> are dropped; the
  value returned is \<^verbatim>\<open>nil\<close>, here \<open>None\<close>.
\<close>

definition Close :: "RunnerProcess \<Rightarrow> os_state \<Rightarrow> error option \<times> RunnerProcess \<times> os_state" where
  "Close r w =
     (let w1 = (if cancel r then w\<lparr>proc_running := False\<rparr> else w);
          r1 = (case conn r of None \<Rightarrow> r
                | Some c \<Rightarrow> r\<lparr>conn := Some (snd (conn_Close c))\<rparr>);
          w2 = (if tempDir r \<noteq> [] then snd (RemoveAll (tempDir r) w1) else w1)
      in (None, r1, w2))"

text \<open>
  The dial loop of \<^verbatim>\<open>NewRunnerProcess\<close>: try to connect, stop at any error other than
  "no such file", give up after the try with \<open>i = 1000\<close>. The loop starts at \<open>i = 0\<close>, so
  the source's test \<^verbatim>\<open>i == 1000\<close> is the first time \<open>1000 \<le> i\<close>.
\<close>

function dial_loop :: "(nat \<Rightarrow> dial_outcome) \<Rightarrow> nat \<Rightarrow> error + conn" where
  "dial_loop d i =
     (case d i of
        Connected c \<Rightarrow> Inr c
      | DialError \<Rightarrow> Inl OpeningRunnerSocket
      | ENOENT \<Rightarrow> if 1000 \<le> i then Inl NoSocketFromRunner else dial_loop d (Suc i))"
  by pat_completeness auto
termination
  by (relation "measure (\<lambda>(d, i). 1000 - i)") auto

text \<open>The sensor code of the hello response decides the sensor type.\<close>

definition sensorTypeOf :: "int \<Rightarrow> SensorType" where
  "sensorTypeOf s =
     (if s = 1 then SensorTypeMicrophone
      else if s = 2 then SensorTypeAccelerometer
      else if s = 3 then SensorTypeCamera
      else SensorTypeUnknown)"

definition helloModelParameters :: "ModelParameters \<Rightarrow> ModelParameters" where
  "helloModelParameters mp0 =
     (let mp = (if ModelType mp0 = [] then mp0\<lparr>ModelType := ModelTypeClassification\<rparr> else mp0)
      in mp\<lparr>SensorType := sensorTypeOf (Sensor mp)\<rparr>)"

text \<open>
  \<^verbatim>\<open>NewRunnerProcess\<close>. Every failure after the runner value exists runs the deferred
  \<^verbatim>\<open>Close\<close> on it and returns no runner; \<open>fail\<close> is that exit.
\<close>

definition fail :: "error \<Rightarrow> RunnerProcess \<Rightarrow> os_state \<Rightarrow> (error + RunnerProcess) \<times> os_state" where
  "fail e r w = (case Close r w of (res, r', w') \<Rightarrow> (Inl e, w'))"

definition emptyModelParameters :: ModelParameters where
  "emptyModelParameters =
     \<lparr>ModelType = [], Sensor = 0, SensorType = [], IntervalMS = 0, Frequency = 0,
      InputFeaturesCount = 0, ImageInputHeight = 0, ImageInputWidth = 0,
      ImageChannelCount = 0, Labels = [], LabelCount = 0, HasAnomaly = 0\<rparr>"

definition emptyRunnerProcess :: RunnerProcess where
  "emptyRunnerProcess =
     \<lparr>modelParams = emptyModelParameters,
      project = \<lparr>DeployVersion = 0, ProjectID = 0, Name = [], Owner = []\<rparr>,
      opts = \<lparr>WorkDir = [], TraceDir = []\<rparr>,
      tempDir = [], cancel = False, conn = None, lastID = 0\<rparr>"

definition NewRunnerProcess ::
  "json_codec \<Rightarrow> os_answers \<Rightarrow> string \<Rightarrow> RunnerOpts option \<Rightarrow> os_state \<Rightarrow>
   (error + RunnerProcess) \<times> os_state" where
  "NewRunnerProcess js os modelPath ropts w =
     (case abs_path os modelPath of
        None \<Rightarrow> (Inl AbsPathError, w)
      | Some path \<Rightarrow>
          (let r0 = (case ropts of None \<Rightarrow> emptyRunnerProcess
                     | Some ro \<Rightarrow> emptyRunnerProcess\<lparr>opts := ro\<rparr>)
           in if WorkDir (opts r0) = [] \<and> temp_dir os = None then fail MakingTempDir r0 w
              else
                (let (r1, w1) =
                       (if WorkDir (opts r0) = []
                        then (r0\<lparr>opts := (opts r0)\<lparr>WorkDir := the (temp_dir os)\<rparr>,
                                 tempDir := the (temp_dir os)\<rparr>,
                              w\<lparr>dirs := the (temp_dir os) # dirs w\<rparr>)
                        else (r0, w));
                     r2 = r1\<lparr>cancel := True\<rparr>
                 in if \<not> start_ok os then fail StartingModelProcess r2 w1
                    else
                      (let w2 = w1\<lparr>proc_running := True\<rparr> in
                       case dial_loop (dial os) 0 of
                         Inl e \<Rightarrow> fail e r2 w2
                       | Inr c \<Rightarrow>
                           (let (i, r3) = nextID (r2\<lparr>conn := Some c\<rparr>);
                                req = \<lparr>HelloID = i, Hello = 1\<rparr>
                            in case transact js (unmarshal_hello js) HelloStatus
                                      (HelloRequest req) r3 of
                                 (Inl e, r4) \<Rightarrow> fail (HelloToModel e) r4 w2
                               | (Inr helloResp, r4) \<Rightarrow>
                                   (Inr (r4\<lparr>modelParams :=
                                             helloModelParameters (HelloModelParameters helloResp),
                                           project := HelloProject helloResp\<rparr>), w2))))))"

section \<open>Package audio: the classifier over a recorder\<close>

text \<open>
  \<^verbatim>\<open>ClassifyEvent\<close> holds either an error or a successful response with the input that
  was classified ("if set, an error occurred and other fields are not meaningful"); the
  elapsed time is not modelled.
\<close>

datatype 'i ClassifyEvent = ErrEvent error | OkEvent RunnerClassifyResponse 'i

text \<open>
  A \<^verbatim>\<open>Runner\<close> is an interface. A pipeline is given the runner's state and its
  \<^verbatim>\<open>Classify\<close> method as a function on that state.
\<close>

type_synonym 'r classify_fn =
  "float64 list \<Rightarrow> 'r \<Rightarrow> (error + RunnerClassifyResponse) \<times> 'r"

subsection \<open>The sliding window of samples\<close>

text \<open>
  \<^verbatim>\<open>binary.Read(r, binary.LittleEndian, &v)\<close> for an \<^verbatim>\<open>int16\<close>: two bytes, low byte
  first. On a reader with fewer than two bytes left the read fails, the error is ignored
  and \<open>v\<close> keeps its zero value.
\<close>

definition le_int16 :: "byte \<Rightarrow> byte \<Rightarrow> 16 word" where
  "le_int16 lo hi = (ucast lo) OR (push_bit 8 (ucast hi))"

fun binary_Read :: "byte list \<Rightarrow> 16 word \<times> byte list" where
  "binary_Read (lo # hi # rest) = (le_int16 lo hi, rest)"
| "binary_Read rest = (0, [])"

definition float64_of_int16 :: "16 word \<Rightarrow> float64" where
  "float64_of_int16 v = real_of_int (sint v)"

text \<open>
  Go panics on an index or a slice bound out of range; the model returns the panic as an
  error value instead of the unspecified value HOL would give.
\<close>

datatype panic = IndexOutOfRange | SliceBoundsOutOfRange | NegativeLen

definition slice_from :: "'a list \<Rightarrow> int \<Rightarrow> panic + 'a list" where
  "slice_from xs k =
     (if 0 \<le> k \<and> k \<le> int (length xs) then Inr (drop (nat k) xs)
      else Inl SliceBoundsOutOfRange)"

definition store :: "'a list \<Rightarrow> int \<Rightarrow> 'a \<Rightarrow> panic + 'a list" where
  "store xs k v =
     (if 0 \<le> k \<and> k < int (length xs) then Inr (xs[nat k := v])
      else Inl IndexOutOfRange)"

text \<open>The builtin \<^verbatim>\<open>copy(dst, src)\<close>: overwrites the front of \<open>dst\<close>, as memmove does.\<close>

definition copy_go :: "'a list \<Rightarrow> 'a list \<Rightarrow> 'a list" where
  "copy_go dst src =
     (let k = min (length dst) (length src) in take k src @ drop k dst)"

text \<open>
  The loop \<^verbatim>\<open>for i := 0; i < sampleCount; i++\<close> that decodes the samples of one
  interval into \<^verbatim>\<open>modelSamples[start+i]\<close>; \<open>idx\<close> is \<open>start + i\<close>, the first argument
  counts the iterations left.
\<close>

fun decode_loop :: "nat \<Rightarrow> int \<Rightarrow> byte list \<Rightarrow> float64 list \<Rightarrow> panic + float64 list" where
  "decode_loop 0 idx rd ms = Inr ms"
| "decode_loop (Suc n) idx rd ms =
     (case binary_Read rd of
        (v, rd') \<Rightarrow>
          (case store ms idx (float64_of_int16 v) of
             Inl p \<Rightarrow> Inl p
           | Inr ms' \<Rightarrow> decode_loop n (idx + 1) rd' ms'))"

record window =
  modelSamples :: "float64 list"
  modelSampleCount :: int

text \<open>
  One pass of the capture loop after a full interval buffer has been read: keep at most
  a window's worth of the interval, shift the old samples out, decode the new ones behind
  them.
\<close>

definition append_interval :: "int \<Rightarrow> byte list \<Rightarrow> window \<Rightarrow> panic + window" where
  "append_interval intervalSampleCount intervalBuf w =
     (let len = int (length (modelSamples w));
          sampleCount = (if intervalSampleCount > len then len else intervalSampleCount)
      in case (if intervalSampleCount > len
               then slice_from intervalBuf (2 * (intervalSampleCount - sampleCount))
               else Inr intervalBuf) of
           Inl p \<Rightarrow> Inl p
         | Inr buf \<Rightarrow>
            (let start = modelSampleCount w;
                 end' = start + sampleCount
             in case (if end' > len
                      then (case slice_from (modelSamples w) (end' - len) of
                              Inl p \<Rightarrow> Inl p
                            | Inr shifted \<Rightarrow>
                                Inr (copy_go (modelSamples w) shifted,
                                     start - (end' - len),
                                     modelSampleCount w - (end' - len)))
                      else Inr (modelSamples w, start, modelSampleCount w)) of
                  Inl p \<Rightarrow> Inl p
                | Inr (ms, start', cnt) \<Rightarrow>
                    (case decode_loop (nat sampleCount) start' buf ms of
                       Inl p \<Rightarrow> Inl p
                     | Inr ms' \<Rightarrow>
                         Inr \<lparr>modelSamples = ms', modelSampleCount = cnt + sampleCount\<rparr>)))"

text \<open>The window after a run of consecutive full interval reads.\<close>

fun append_intervals :: "int \<Rightarrow> byte list list \<Rightarrow> window \<Rightarrow> panic + window" where
  "append_intervals n [] w = Inr w"
| "append_intervals n (buf # bufs) w =
     (case append_interval n buf w of
        Inl p \<Rightarrow> Inl p
      | Inr w' \<Rightarrow> append_intervals n bufs w')"

text \<open>
  All samples of a byte stream, in order: what a reader that decodes two bytes at a time
  sees. It is the reference the window is compared with.
\<close>

fun decode_stream :: "byte list \<Rightarrow> float64 list" where
  "decode_stream (lo # hi # rest) = float64_of_int16 (le_int16 lo hi) # decode_stream rest"
| "decode_stream rest = []"

text \<open>
  \<open>lastn k xs\<close> is the last \<open>k\<close> elements of \<open>xs\<close> in their order (all of \<open>xs\<close> if it is
  shorter). \<open>window_inv W w xs\<close> says that a window of length \<open>W\<close> holds, in its first
  \<open>modelSampleCount\<close> places, the most recent samples of the stream \<open>xs\<close> decoded so far.
\<close>

definition lastn :: "nat \<Rightarrow> 'a list \<Rightarrow> 'a list" where
  "lastn k xs = drop (length xs - k) xs"

definition window_inv :: "nat \<Rightarrow> window \<Rightarrow> float64 list \<Rightarrow> bool" where
  "window_inv W w xs \<longleftrightarrow>
     length (modelSamples w) = W \<and>
     modelSampleCount w = int (min W (length xs)) \<and>
     take (min W (length xs)) (modelSamples w) = lastn (min W (length xs)) xs"

subsection \<open>The two activities of the audio classifier\<close>

text \<open>
  The recorder hands out its reader; the script lists what each \<^verbatim>\<open>io.ReadFull\<close> of one
  interval buffer will give: the full buffer, or an error (a short read, end of stream).
\<close>

datatype audio_read = Interval "byte list" | AudioFail

record audio_recorder =
  reader_calls :: nat
  audio_script :: "audio_read list"

datatype capture_pc = CapReading | CapSendErr | CapStopped | CapPanicked panic

datatype worker_pc =
    WReceive
  | WClassify "float64 list"
  | WSendErr error
  | WSendOk RunnerClassifyResponse "float64 list"
  | WStopped

text \<open>
  The state of a started classifier: the capture goroutine (window, audio left to read,
  where it stands), the channel \<^verbatim>\<open>samples\<close> (unbuffered: a send succeeds only into a
  waiting receive, so only its closed flag is state), the classify goroutine with the
  runner it calls, and the channel \<^verbatim>\<open>Events\<close> (capacity 1) with its closed flag.
  \<open>delivered\<close> is what a consumer has received from \<^verbatim>\<open>Events\<close> so far.
\<close>

record 'r audio_classifier =
  interval_count :: int
  win :: window
  audio :: "audio_read list"
  capture :: capture_pc
  samples_closed :: bool
  worker :: worker_pc
  runner :: 'r
  Events :: "float64 list ClassifyEvent list"
  Events_closed :: bool
  delivered :: "float64 list ClassifyEvent list"

text \<open>
  \<^verbatim>\<open>audio.NewClassifier\<close>. \<open>intervalSampleCount\<close> stands for
  \<^verbatim>\<open>int(modelParams.Frequency * interval.Seconds())\<close>, a floating-point product that is
  not modelled. \<^verbatim>\<open>make\<close> with a negative length panics.
\<close>

definition audio_NewClassifier ::
  "ModelParameters \<Rightarrow> 'r \<Rightarrow> audio_recorder \<Rightarrow> int \<Rightarrow>
   (error + 'r audio_classifier) \<times> audio_recorder" where
  "audio_NewClassifier mp r rec intervalSampleCount =
     (if SensorType mp \<noteq> SensorTypeMicrophone then (Inl (SensorMismatch (SensorType mp)), rec)
      else if intervalSampleCount < 0 \<or> InputFeaturesCount mp < 0 then (Inl MakeSlicePanic, rec)
      else (Inr \<lparr>interval_count = intervalSampleCount,
                 win = \<lparr>modelSamples = replicate (nat (InputFeaturesCount mp)) 0,
                        modelSampleCount = 0\<rparr>,
                 audio = audio_script rec,
                 capture = CapReading,
                 samples_closed = False,
                 worker = WReceive,
                 runner = r,
                 Events = [],
                 Events_closed = False,
                 delivered = []\<rparr>,
            rec\<lparr>reader_calls := Suc (reader_calls rec)\<rparr>))"

text \<open>
  One step of the capture goroutine, \<open>None\<close> when it cannot move (blocked or stopped).
  Reading: an error moves to sending the error event; a full interval updates the window
  and, once the window is full, offers a copy to the worker without blocking: taken if
  the worker waits in its receive, dropped otherwise. Sending the error event needs room
  in \<^verbatim>\<open>Events\<close>; after it the goroutine returns and its deferred function closes
  \<^verbatim>\<open>samples\<close>.
\<close>

definition capture_step :: "'r audio_classifier \<Rightarrow> 'r audio_classifier option" where
  "capture_step s =
     (case capture s of
        CapReading \<Rightarrow>
          (case audio s of
             [] \<Rightarrow> None
           | AudioFail # rest \<Rightarrow> Some (s\<lparr>audio := rest, capture := CapSendErr\<rparr>)
           | Interval buf # rest \<Rightarrow>
               (case append_interval (interval_count s) buf (win s) of
                  Inl p \<Rightarrow> Some (s\<lparr>audio := rest, capture := CapPanicked p\<rparr>)
                | Inr w \<Rightarrow>
                    if modelSampleCount w < int (length (modelSamples w))
                    then Some (s\<lparr>audio := rest, win := w\<rparr>)
                    else if worker s = WReceive
                    then Some (s\<lparr>audio := rest, win := w, worker := WClassify (modelSamples w)\<rparr>)
                    else Some (s\<lparr>audio := rest, win := w\<rparr>)))
      | CapSendErr \<Rightarrow>
          if length (Events s) < 1
          then Some (s\<lparr>Events := Events s @ [ErrEvent ReadingAudio],
                       capture := CapStopped, samples_closed := True\<rparr>)
          else None
      | CapStopped \<Rightarrow> None
      | CapPanicked p \<Rightarrow> None)"

text \<open>
  One step of the classify goroutine. Waiting in the receive it moves only when
  \<^verbatim>\<open>samples\<close> is closed (a value arrives through the capture step), and returns. With a
  window it calls \<^verbatim>\<open>Classify\<close>; the event is sent when \<^verbatim>\<open>Events\<close> has room; after an
  error event the goroutine returns, after a result it receives again.
\<close>

definition worker_step :: "'r classify_fn \<Rightarrow> 'r audio_classifier \<Rightarrow> 'r audio_classifier option" where
  "worker_step classify s =
     (case worker s of
        WReceive \<Rightarrow> if samples_closed s then Some (s\<lparr>worker := WStopped\<rparr>) else None
      | WClassify smp \<Rightarrow>
          (case classify smp (runner s) of
             (Inl e, r') \<Rightarrow> Some (s\<lparr>worker := WSendErr e, runner := r'\<rparr>)
           | (Inr resp, r') \<Rightarrow> Some (s\<lparr>worker := WSendOk resp smp, runner := r'\<rparr>))
      | WSendErr e \<Rightarrow>
          if length (Events s) < 1
          then Some (s\<lparr>Events := Events s @ [ErrEvent e], worker := WStopped\<rparr>)
          else None
      | WSendOk resp smp \<Rightarrow>
          if length (Events s) < 1
          then Some (s\<lparr>Events := Events s @ [OkEvent resp smp], worker := WReceive\<rparr>)
          else None
      | WStopped \<Rightarrow> None)"

text \<open>
  A consumer receiving from \<^verbatim>\<open>Events\<close>: it gets the buffered event, or sees the end of
  the stream if the channel is closed and empty, or blocks.
\<close>

datatype 'e receive = Got 'e | EndOfStream | Blocked

definition consumer_receive :: "'r audio_classifier \<Rightarrow> float64 list ClassifyEvent receive" where
  "consumer_receive s =
     (case Events s of
        ev # evs \<Rightarrow> Got ev
      | [] \<Rightarrow> if Events_closed s then EndOfStream else Blocked)"

definition consumer_step :: "'r audio_classifier \<Rightarrow> 'r audio_classifier option" where
  "consumer_step s =
     (case Events s of
        ev # evs \<Rightarrow> Some (s\<lparr>Events := evs, delivered := delivered s @ [ev]\<rparr>)
      | [] \<Rightarrow> None)"

text \<open>
  A schedule names which activity runs next; an activity that cannot move leaves the
  state as it is. \<open>run\<close> plays a schedule from a state.
\<close>

datatype activity = Capture | Worker | Consumer

definition step :: "'r classify_fn \<Rightarrow> activity \<Rightarrow> 'r audio_classifier \<Rightarrow> 'r audio_classifier option" where
  "step classify a s =
     (case a of
        Capture \<Rightarrow> capture_step s
      | Worker \<Rightarrow> worker_step classify s
      | Consumer \<Rightarrow> consumer_step s)"

fun run :: "'r classify_fn \<Rightarrow> activity list \<Rightarrow> 'r audio_classifier \<Rightarrow> 'r audio_classifier" where
  "run classify [] s = s"
| "run classify (a # as) s =
     (case step classify a s of
        None \<Rightarrow> run classify as s
      | Some s' \<Rightarrow> run classify as s')"

text \<open>\<^verbatim>\<open>Classifier.Close\<close> of the audio package returns \<^verbatim>\<open>nil\<close> and does nothing else.\<close>

definition audio_Close :: "'r audio_classifier \<Rightarrow> error option \<times> 'r audio_classifier" where
  "audio_Close s = (None, s)"

text \<open>
  What holds of the two channels in every reachable state: \<^verbatim>\<open>Events\<close> is open, and
  \<^verbatim>\<open>samples\<close> is closed exactly when the capture goroutine has returned.
\<close>

definition channels_inv :: "'r audio_classifier \<Rightarrow> bool" where
  "channels_inv s \<longleftrightarrow> \<not> Events_closed s \<and> (samples_closed s \<longleftrightarrow> capture s = CapStopped)"

section \<open>Package image: the classifier over an image recorder\<close>

subsection \<open>Images and colors of the Go standard library\<close>

text \<open>
  An \<^verbatim>\<open>image.Image\<close> is its bounds and its pixels. \<^verbatim>\<open>*image.NRGBA\<close> holds four bytes
  for a pixel (red, green, blue, alpha, not premultiplied), \<^verbatim>\<open>*image.Gray\<close> one byte; any
  other image type is given by the \<^verbatim>\<open>RGBA()\<close> values of its pixels.
\<close>

record rect =
  minX :: int
  minY :: int
  maxX :: int
  maxY :: int

datatype color =
    NRGBAColor byte byte byte byte
  | GrayColor byte
  | OtherColor "32 word" "32 word" "32 word" "32 word"

datatype image =
    NRGBAImage rect "int \<Rightarrow> int \<Rightarrow> byte \<times> byte \<times> byte \<times> byte"
  | GrayImage rect "int \<Rightarrow> int \<Rightarrow> byte"
  | OtherImage rect "int \<Rightarrow> int \<Rightarrow> 32 word \<times> 32 word \<times> 32 word \<times> 32 word"

fun Bounds :: "image \<Rightarrow> rect" where
  "Bounds (NRGBAImage b px) = b"
| "Bounds (GrayImage b px) = b"
| "Bounds (OtherImage b px) = b"

definition Size :: "rect \<Rightarrow> int \<times> int" where
  "Size b = (maxX b - minX b, maxY b - minY b)"

definition inside :: "rect \<Rightarrow> int \<Rightarrow> int \<Rightarrow> bool" where
  "inside b x y \<longleftrightarrow> minX b \<le> x \<and> x < maxX b \<and> minY b \<le> y \<and> y < maxY b"

text \<open>\<^verbatim>\<open>At\<close>: the color at a point, the zero color of the image's type outside its bounds.\<close>

fun At :: "image \<Rightarrow> int \<Rightarrow> int \<Rightarrow> color" where
  "At (NRGBAImage b px) x y =
     (if inside b x y then (case px x y of (r, g, bl, a) \<Rightarrow> NRGBAColor r g bl a)
      else NRGBAColor 0 0 0 0)"
| "At (GrayImage b px) x y = (if inside b x y then GrayColor (px x y) else GrayColor 0)"
| "At (OtherImage b px) x y =
     (if inside b x y then (case px x y of (r, g, bl, a) \<Rightarrow> OtherColor r g bl a)
      else OtherColor 0 0 0 0)"

text \<open>
  \<^verbatim>\<open>Color.RGBA()\<close>, in \<^verbatim>\<open>uint32\<close> arithmetic. \<^verbatim>\<open>color.NRGBA\<close> widens a channel to 16
  bits and multiplies it by the alpha; \<^verbatim>\<open>color.Gray\<close> widens its intensity into all three
  channels.
\<close>

definition widen :: "byte \<Rightarrow> 32 word" where
  "widen c = (ucast c) OR (push_bit 8 (ucast c))"

fun RGBA :: "color \<Rightarrow> 32 word \<times> 32 word \<times> 32 word \<times> 32 word" where
  "RGBA (NRGBAColor r g b a) =
     (widen r * ucast a div 0xff, widen g * ucast a div 0xff, widen b * ucast a div 0xff,
      widen a)"
| "RGBA (GrayColor y) = (widen y, widen y, widen y, 0xffff)"
| "RGBA (OtherColor r g b a) = (r, g, b, a)"

text \<open>
  The image functions the classifier calls, parameters of the model: \<^verbatim>\<open>imaging.Fill\<close>
  (crop and resize; it returns an \<^verbatim>\<open>*image.NRGBA\<close>) and \<^verbatim>\<open>draw.Draw\<close> into a new NRGBA
  or Gray image with the bounds of the source.
\<close>

record image_lib =
  Fill :: "image \<Rightarrow> int \<Rightarrow> int \<Rightarrow> rect \<times> (int \<Rightarrow> int \<Rightarrow> byte \<times> byte \<times> byte \<times> byte)"
  draw_NRGBA :: "image \<Rightarrow> int \<Rightarrow> int \<Rightarrow> byte \<times> byte \<times> byte \<times> byte"
  draw_Gray :: "image \<Rightarrow> int \<Rightarrow> int \<Rightarrow> byte"

definition imageResize :: "image_lib \<Rightarrow> image \<Rightarrow> int \<times> int \<Rightarrow> image" where
  "imageResize lib img sz = (case Fill lib img (fst sz) (snd sz) of (b, px) \<Rightarrow> NRGBAImage b px)"

subsection \<open>From an image to the features of a request\<close>

text \<open>
  The image the model gets: resized if its size is not the model's, then converted to
  NRGBA for a model with three channels, to Gray for any other channel count, unless it
  has that type already.
\<close>

definition normalize :: "image_lib \<Rightarrow> ModelParameters \<Rightarrow> image \<Rightarrow> image" where
  "normalize lib mp img0 =
     (let modelSize = (ImageInputWidth mp, ImageInputHeight mp);
          img = (if Size (Bounds img0) \<noteq> modelSize then imageResize lib img0 modelSize else img0)
      in if ImageChannelCount mp = 3
         then (case img of
                 NRGBAImage b px \<Rightarrow> img
               | _ \<Rightarrow> NRGBAImage (Bounds img) (draw_NRGBA lib img))
         else (case img of
                 GrayImage b px \<Rightarrow> img
               | _ \<Rightarrow> GrayImage (Bounds img) (draw_Gray lib img)))"

text \<open>
  The feature of one pixel: the high bytes of the red, green and blue of \<^verbatim>\<open>RGBA()\<close>,
  packed into one \<^verbatim>\<open>uint32\<close> and converted to \<^verbatim>\<open>float64\<close>. The same packing is applied
  whatever the channel count of the model.
\<close>

definition pixel_value :: "color \<Rightarrow> 32 word" where
  "pixel_value c =
     (case RGBA c of
        (r, g, b, a) \<Rightarrow>
          (push_bit 16 (drop_bit 8 r)) OR (push_bit 8 (drop_bit 8 g)) OR (drop_bit 8 b))"

definition pixel_feature :: "color \<Rightarrow> float64" where
  "pixel_feature c = real (unat (pixel_value c))"

text \<open>
  The two loops over \<open>y\<close> and \<open>x\<close> that fill \<^verbatim>\<open>data[i]\<close>, \<open>i\<close> counting up from 0. The
  first argument after the image data counts the iterations left.
\<close>

fun pack_x ::
  "image \<Rightarrow> int \<Rightarrow> nat \<Rightarrow> int \<Rightarrow> int \<Rightarrow> float64 list \<Rightarrow> panic + float64 list \<times> int" where
  "pack_x img y 0 x i data = Inr (data, i)"
| "pack_x img y (Suc n) x i data =
     (case store data i (pixel_feature (At img x y)) of
        Inl p \<Rightarrow> Inl p
      | Inr data' \<Rightarrow> pack_x img y n (x + 1) (i + 1) data')"

fun pack_y ::
  "image \<Rightarrow> int \<Rightarrow> nat \<Rightarrow> int \<Rightarrow> int \<Rightarrow> float64 list \<Rightarrow> panic + float64 list" where
  "pack_y img X 0 y i data = Inr data"
| "pack_y img X (Suc m) y i data =
     (case pack_x img y (nat X) 0 i data of
        Inl p \<Rightarrow> Inl p
      | Inr (data', i') \<Rightarrow> pack_y img X m (y + 1) i' data')"

definition pack_features :: "int \<Rightarrow> int \<Rightarrow> image \<Rightarrow> panic + float64 list" where
  "pack_features X Y img =
     (if X * Y < 0 then Inl NegativeLen
      else pack_y img X (nat Y) 0 0 (replicate (nat (X * Y)) 0))"

definition image_features :: "image_lib \<Rightarrow> ModelParameters \<Rightarrow> image \<Rightarrow> panic + float64 list" where
  "image_features lib mp img =
     pack_features (ImageInputWidth mp) (ImageInputHeight mp) (normalize lib mp img)"


subsection \<open>The loop of the image classifier\<close>

text \<open>
  What the \<^verbatim>\<open>select\<close> of the loop receives, in order: a stop signal, the recorder's
  channel being closed, or an event of the recorder (an error or an image).
\<close>

datatype image_input = StopSignal | RecorderClosed | Received "error + image"

record image_recorder =
  events_calls :: nat
  image_script :: "image_input list"

record 'r image_classifier =
  image_modelParams :: ModelParameters
  image_runner :: 'r
  imageEvents :: "image_input list"

definition image_NewClassifier ::
  "ModelParameters \<Rightarrow> 'r \<Rightarrow> image_recorder \<Rightarrow> (error + 'r image_classifier) \<times> image_recorder" where
  "image_NewClassifier mp r rec =
     (if SensorType mp \<noteq> SensorTypeCamera then (Inl (SensorMismatch (SensorType mp)), rec)
      else (Inr \<lparr>image_modelParams = mp, image_runner = r, imageEvents = image_script rec\<rparr>,
            rec\<lparr>events_calls := Suc (events_calls rec)\<rparr>))"

text \<open>
  The goroutine of the image classifier, as the list of events it sends on \<^verbatim>\<open>Events\<close>
  for the inputs it receives (a consumer is taken to drain \<^verbatim>\<open>Events\<close>). An error event of
  the recorder and an error of \<^verbatim>\<open>Classify\<close> are each sent on and the loop continues; a
  stop signal or the closed recorder channel ends it. A panic while packing ends the
  goroutine with no event. Writing the trace image is left out.
\<close>

fun image_loop ::
  "image_lib \<Rightarrow> 'r classify_fn \<Rightarrow> ModelParameters \<Rightarrow> image_input list \<Rightarrow> 'r \<Rightarrow>
   image ClassifyEvent list \<times> 'r" where
  "image_loop lib classify mp [] r = ([], r)"
| "image_loop lib classify mp (StopSignal # ins) r = ([], r)"
| "image_loop lib classify mp (RecorderClosed # ins) r = ([], r)"
| "image_loop lib classify mp (Received (Inl e) # ins) r =
     (case image_loop lib classify mp ins r of (evs, r') \<Rightarrow> (ErrEvent e # evs, r'))"
| "image_loop lib classify mp (Received (Inr img) # ins) r =
     (case image_features lib mp img of
        Inl p \<Rightarrow> ([], r)
      | Inr data \<Rightarrow>
          (case classify data r of
             (Inl e, r1) \<Rightarrow>
               (case image_loop lib classify mp ins r1 of (evs, r') \<Rightarrow> (ErrEvent e # evs, r'))
           | (Inr resp, r1) \<Rightarrow>
               (case image_loop lib classify mp ins r1 of (evs, r') \<Rightarrow> (OkEvent resp img # evs, r'))))"

section \<open>Concurrent callers of Classify\<close>

text \<open>
  Several goroutines call \<^verbatim>\<open>Classify\<close> on one runner. Each call is a little program:
  lock the mutex, take the next id, write the request, read until the response is
  complete, drain the byte behind it, unlock (the deferred call), return. A call moves
  one step at a time, and between any two steps of one call the scheduler may run steps
  of the others; a step is one operation on the shared runner (the mutex, the id
  counter, one \<^verbatim>\<open>Write\<close> or \<^verbatim>\<open>Read\<close> on the connection). The decoder and its buffer
  belong to the call.
\<close>

datatype call =
    Start "float64 list"
  | HasLock "float64 list"
  | Writing RunnerClassifyRequest
  | Decoding "byte list"
  | Draining RunnerClassifyResponse "byte list"
  | Unlocking "error + RunnerClassifyResponse"
  | Returned "error + RunnerClassifyResponse"

text \<open>
  A call is in flight from the moment it holds the mutex until it has released it.
\<close>

fun in_flight :: "call \<Rightarrow> bool" where
  "in_flight (Start d) = False"
| "in_flight (Returned res) = False"
| "in_flight c = True"

text \<open>
  The shared state: the mutex, the runner, where each caller stands, and a log of the
  operations issued on the connection, each with the caller that issued it. The log is
  what an observer at the socket sees happen, in order.
\<close>

datatype conn_op = WriteOp "byte list" | ReadOp

record shared_runner =
  mutex :: bool
  proc :: RunnerProcess
  calls :: "nat \<Rightarrow> call"
  wire :: "(nat \<times> conn_op) list"

text \<open>\<^verbatim>\<open>Read\<close> by the decoder: it takes the whole next chunk.\<close>

definition conn_ReadChunk :: "conn \<Rightarrow> (io_error + byte list) \<times> conn" where
  "conn_ReadChunk c =
     (let c' = c\<lparr>io_calls := Suc (io_calls c)\<rparr> in
      if conn_closed c then (Inl UseOfClosedConn, c')
      else (case inbound c of
              [] \<Rightarrow> (Inl DeadlineExceeded, c')
            | ReadFail # evs \<Rightarrow> (Inl ReadFailed, c'\<lparr>inbound := evs\<rparr>)
            | Data ch # evs \<Rightarrow> (Inr ch, c'\<lparr>inbound := evs\<rparr>)))"

text \<open>
  One step of caller \<open>i\<close>; \<open>None\<close> when the caller cannot move: it waits for the mutex,
  or it has returned. A panic on a \<^verbatim>\<open>nil\<close> connection still runs the deferred unlock.
\<close>

definition call_step :: "json_codec \<Rightarrow> nat \<Rightarrow> shared_runner \<Rightarrow> shared_runner option" where
  "call_step js i st =
     (let move = (\<lambda>c. st\<lparr>calls := (calls st)(i := c)\<rparr>) in
      case calls st i of
        Start d \<Rightarrow>
          if mutex st then None else Some ((move (HasLock d))\<lparr>mutex := True\<rparr>)
      | HasLock d \<Rightarrow>
          (case nextID (proc st) of
             (n, r1) \<Rightarrow>
               Some ((move (Writing \<lparr>RequestID = n, Classify_data = d\<rparr>))\<lparr>proc := r1\<rparr>))
      | Writing rq \<Rightarrow>
          (case marshal js (ClassifyRequest rq) of
             None \<Rightarrow> Some (move (Unlocking (Inl (WritingJSON None))))
           | Some bs \<Rightarrow>
               (case conn (proc st) of
                  None \<Rightarrow> Some (move (Unlocking (Inl NilPointerPanic)))
                | Some c \<Rightarrow>
                    (case conn_Write bs c of
                       (Inl e, c1) \<Rightarrow>
                         Some ((move (Unlocking (Inl (WritingJSON (Some e)))))
                                 \<lparr>proc := (proc st)\<lparr>conn := Some c1\<rparr>,
                                  wire := wire st @ [(i, WriteOp bs)]\<rparr>)
                     | (Inr u, c1) \<Rightarrow>
                         Some ((move (Decoding []))
                                 \<lparr>proc := (proc st)\<lparr>conn := Some c1\<rparr>,
                                  wire := wire st @ [(i, WriteOp bs)]\<rparr>))))
      | Decoding buf \<Rightarrow>
          (case scan js buf of
             Complete n \<Rightarrow>
               (case unmarshal_classify js (take n buf) of
                  None \<Rightarrow> Some (move (Unlocking (Inl (ReadingJSON UnmarshalError))))
                | Some v \<Rightarrow> Some (move (Draining v (drop n buf))))
           | Invalid \<Rightarrow> Some (move (Unlocking (Inl (ReadingJSON SyntaxError))))
           | Incomplete \<Rightarrow>
               (case conn (proc st) of
                  None \<Rightarrow> Some (move (Unlocking (Inl NilPointerPanic)))
                | Some c \<Rightarrow>
                    (case conn_ReadChunk c of
                       (Inl e, c1) \<Rightarrow>
                         Some ((move (Unlocking (Inl (ReadingJSON (IOError e)))))
                                 \<lparr>proc := (proc st)\<lparr>conn := Some c1\<rparr>,
                                  wire := wire st @ [(i, ReadOp)]\<rparr>)
                     | (Inr ch, c1) \<Rightarrow>
                         Some ((move (Decoding (buf @ ch)))
                                 \<lparr>proc := (proc st)\<lparr>conn := Some c1\<rparr>,
                                  wire := wire st @ [(i, ReadOp)]\<rparr>))))
      | Draining resp buffered \<Rightarrow>
          (let res = (if \<not> Success (ClassifyStatus resp)
                      then Inl (Classifying (Error (ClassifyStatus resp)))
                      else Inr resp)
           in if buffered = []
              then (case conn (proc st) of
                      None \<Rightarrow> Some (move (Unlocking (Inl NilPointerPanic)))
                    | Some c \<Rightarrow>
                        Some ((move (Unlocking res))
                                \<lparr>proc := (proc st)\<lparr>conn := Some (snd (conn_Read 1 c))\<rparr>,
                                 wire := wire st @ [(i, ReadOp)]\<rparr>))
              else Some (move (Unlocking res)))
      | Unlocking res \<Rightarrow> Some ((move (Returned res))\<lparr>mutex := False\<rparr>)
      | Returned res \<Rightarrow> None)"

text \<open>
  A schedule is the list of callers in the order the scheduler lets them try a step;
  a caller that cannot move leaves the state as it is.
\<close>

fun run_calls :: "json_codec \<Rightarrow> nat list \<Rightarrow> shared_runner \<Rightarrow> shared_runner" where
  "run_calls js [] st = st"
| "run_calls js (i # sch) st =
     (case call_step js i st of
        None \<Rightarrow> run_calls js sch st
      | Some st' \<Rightarrow> run_calls js sch st')"

text \<open>
  A list of owners is in blocks when no owner comes back after another one has had its
  turn: \<open>[a, a, b]\<close> is, \<open>[a, b, a]\<close> is not. For the log of the connection it says that
  the operations of each call stand together, one whole round trip after the other.
\<close>

fun in_blocks :: "'a list \<Rightarrow> bool" where
  "in_blocks [] = True"
| "in_blocks [x] = True"
| "in_blocks (x # y # zs) = ((x = y \<or> x \<notin> set (y # zs)) \<and> in_blocks (y # zs))"

text \<open>
  What the mutex maintains: it is held exactly while some call is in flight, at most one
  call is in flight, the log is in blocks, a call that has not started is not in the
  log, and if the call in flight is in the log then the latest operation is its own.
\<close>

definition serial_inv :: "shared_runner \<Rightarrow> bool" where
  "serial_inv st \<longleftrightarrow>
     (mutex st \<longleftrightarrow> (\<exists>i. in_flight (calls st i))) \<and>
     (\<forall>i j. in_flight (calls st i) \<and> in_flight (calls st j) \<longrightarrow> i = j) \<and>
     in_blocks (map fst (wire st)) \<and>
     (\<forall>i d. calls st i = Start d \<longrightarrow> i \<notin> set (map fst (wire st))) \<and>
     (\<forall>i. in_flight (calls st i) \<and> i \<in> set (map fst (wire st))
          \<longrightarrow> last (map fst (wire st)) = i)"

text \<open>
  The rest of a transaction once the request is written, with \<open>buf\<close> already in the
  decoder: read until the value is complete, unmarshal, drain, look at the status.
\<close>

definition after_write ::
  "json_codec \<Rightarrow> byte list \<Rightarrow> conn \<Rightarrow> RunnerProcess \<Rightarrow>
   (error + RunnerClassifyResponse) \<times> RunnerProcess" where
  "after_write js buf c r =
     (case readValue (scan js) (conn_closed c) buf (inbound c) (io_calls c) of
        (Inl e, evs, k) \<Rightarrow>
          (Inl (ReadingJSON e), r\<lparr>conn := Some (c\<lparr>inbound := evs, io_calls := k\<rparr>)\<rparr>)
      | (Inr (doc, rest), evs, k) \<Rightarrow>
          (case unmarshal_classify js doc of
             None \<Rightarrow>
               (Inl (ReadingJSON UnmarshalError),
                r\<lparr>conn := Some (c\<lparr>inbound := evs, io_calls := k\<rparr>)\<rparr>)
           | Some resp \<Rightarrow>
               (if \<not> Success (ClassifyStatus resp)
                then Inl (Classifying (Error (ClassifyStatus resp)))
                else Inr resp,
                r\<lparr>conn := Some (if rest = []
                                  then snd (conn_Read 1 (c\<lparr>inbound := evs, io_calls := k\<rparr>))
                                  else c\<lparr>inbound := evs, io_calls := k\<rparr>)\<rparr>)))"

text \<open>
  \<open>completes js i st res r\<close>: left alone, caller \<open>i\<close> runs from \<open>st\<close> to its return with
  result \<open>res\<close>, leaving the runner as \<open>r\<close> and the mutex free.
\<close>

definition completes ::
  "json_codec \<Rightarrow> nat \<Rightarrow> shared_runner \<Rightarrow> error + RunnerClassifyResponse \<Rightarrow> RunnerProcess
   \<Rightarrow> bool" where
  "completes js i st res r \<longleftrightarrow>
     (\<exists>n0. \<forall>n\<ge>n0. calls (run_calls js (replicate n i) st) i = Returned res \<and>
                    proc (run_calls js (replicate n i) st) = r \<and>
                    \<not> mutex (run_calls js (replicate n i) st))"

text \<open>
  The calls of the callers in \<open>order\<close>, made one after the other on one runner with the
  sequential \<^verbatim>\<open>Classify\<close>: each caller with its result, and the runner at the end.
\<close>

fun serial ::
  "json_codec \<Rightarrow> (nat \<Rightarrow> float64 list) \<Rightarrow> nat list \<Rightarrow> RunnerProcess \<Rightarrow>
   (nat \<times> (error + RunnerClassifyResponse)) list \<times> RunnerProcess" where
  "serial js d [] r = ([], r)"
| "serial js d (i # order) r =
     (case Classify js (d i) r of
        (res, r1) \<Rightarrow>
          (case serial js d order r1 of (out, r2) \<Rightarrow> ((i, res) # out, r2)))"

text \<open>
  What the schedule cannot disturb: the calls that have returned are, with their
  results, the calls of some order made one after the other from the first runner state;
  a call in flight will, left alone, complete as the next one of that order; every other
  call has not started; and when no call is in flight the runner is the one the order
  leaves.
\<close>

definition linear_inv ::
  "json_codec \<Rightarrow> (nat \<Rightarrow> float64 list) \<Rightarrow> RunnerProcess \<Rightarrow> shared_runner \<Rightarrow> bool" where
  "linear_inv js d r0 st \<longleftrightarrow>
     (\<exists>order. distinct order \<and>
        (\<forall>i res. (i, res) \<in> set (fst (serial js d order r0)) \<longrightarrow> calls st i = Returned res) \<and>
        (\<forall>i. i \<notin> set order \<longrightarrow>
           calls st i = Start (d i) \<or>
           in_flight (calls st i) \<and>
           completes js i st (fst (Classify js (d i) (snd (serial js d order r0))))
                             (snd (Classify js (d i) (snd (serial js d order r0))))) \<and>
        ((\<forall>i. \<not> in_flight (calls st i)) \<longrightarrow> proc st = snd (serial js d order r0)))"

section \<open>Test doubles\<close>

text \<open>
  A small stand-in for the JSON library, used to run the model on concrete inputs: a
  value is a run of bytes from an opening brace to the matching closing brace.
\<close>

fun brace_scan_from :: "nat \<Rightarrow> nat \<Rightarrow> byte list \<Rightarrow> scan_result" where
  "brace_scan_from d n [] = Incomplete"
| "brace_scan_from d n (b # bs) =
     (if b = 123 then brace_scan_from (Suc d) (Suc n) bs
      else if d = 0 then Invalid
      else if b = 125 then (if d = 1 then Complete (Suc n) else brace_scan_from (d - 1) (Suc n) bs)
      else brace_scan_from d (Suc n) bs)"

definition brace_scan :: "byte list \<Rightarrow> scan_result" where
  "brace_scan buf = brace_scan_from 0 0 buf"

definition ok_status :: RunnerResponse where
  "ok_status = \<lparr>ID = 1, Success = True, Error = []\<rparr>"

definition test_hello :: runnerHelloResponse where
  "test_hello =
     \<lparr>HelloStatus = ok_status,
      HelloModelParameters = emptyModelParameters\<lparr>Sensor := 1, InputFeaturesCount := 4\<rparr>,
      HelloProject = \<lparr>DeployVersion = 1, ProjectID = 1, Name = ''p'', Owner = ''o''\<rparr>\<rparr>"

definition test_response :: "RunnerResponse \<Rightarrow> RunnerClassifyResponse" where
  "test_response st =
     \<lparr>ClassifyStatus = st, Classification = None, BoundingBoxes = None, Anomaly = 0,
      TimingDSP = 0, TimingClassification = 0, TimingAnomaly = 0\<rparr>"

text \<open>
  The document \<^verbatim>\<open>{}\<close> decodes to a successful response, \<^verbatim>\<open>{x}\<close> to a response that
  reports the failure "boom", \<^verbatim>\<open>{u}\<close> to a hello response with the unknown sensor code 7,
  and any other document, such as \<^verbatim>\<open>{y}\<close>, does not unmarshal; a hello request is
  written as \<^verbatim>\<open>{h}\<close>, a classify request as \<^verbatim>\<open>{c}\<close>.
\<close>

definition test_codec :: json_codec where
  "test_codec =
     \<lparr>scan = brace_scan,
      marshal = (\<lambda>req. case req of HelloRequest h \<Rightarrow> Some [123, 104, 125]
                               | ClassifyRequest c \<Rightarrow> Some [123, 99, 125]),
      unmarshal_hello =
        (\<lambda>doc. if doc = [123, 125] then Some test_hello
               else if doc = [123, 117, 125]
               then Some (test_hello\<lparr>HelloModelParameters :=
                            (HelloModelParameters test_hello)\<lparr>Sensor := 7\<rparr>\<rparr>)
               else None),
      unmarshal_classify =
        (\<lambda>doc. if doc = [123, 125] then Some (test_response ok_status)
               else if doc = [123, 120, 125]
               then Some (test_response \<lparr>ID = 1, Success = False, Error = ''boom''\<rparr>)
               else None)\<rparr>"

definition test_conn :: "read_event list \<Rightarrow> conn" where
  "test_conn evs =
     \<lparr>conn_closed = False, peer_gone = False, inbound = evs, outbound = [], io_calls = 0\<rparr>"

definition test_runner :: "read_event list \<Rightarrow> RunnerProcess" where
  "test_runner evs = emptyRunnerProcess\<lparr>cancel := True, conn := Some (test_conn evs), lastID := 1\<rparr>"

definition test_os :: "read_event list \<Rightarrow> os_answers" where
  "test_os evs =
     \<lparr>abs_path = (\<lambda>p. Some p), temp_dir = Some ''/tmp/edge-impulse-cli1'', start_ok = True,
      dial = (\<lambda>i. if i < 2 then ENOENT else Connected (test_conn evs))\<rparr>"

definition test_world :: os_state where
  "test_world = \<lparr>proc_running = False, dirs = [], remove_fails = False\<rparr>"

text \<open>
  A runner whose \<^verbatim>\<open>Classify\<close> answers from a script, one entry for each call, and model
  parameters of a microphone model with a given window length.
\<close>

definition stub_classify :: "(error + RunnerClassifyResponse) list classify_fn" where
  "stub_classify data r =
     (case r of [] \<Rightarrow> (Inl (ReadingJSON (IOError DeadlineExceeded)), [])
      | x # xs \<Rightarrow> (x, xs))"

definition mic_params :: "int \<Rightarrow> ModelParameters" where
  "mic_params k = emptyModelParameters\<lparr>Sensor := 1, SensorType := SensorTypeMicrophone,
     InputFeaturesCount := k\<rparr>"

text \<open>
  Image functions that give black images, and the model parameters of a camera model of a
  given width, height and channel count.
\<close>

definition test_image_lib :: image_lib where
  "test_image_lib =
     \<lparr>Fill = (\<lambda>img w h. (\<lparr>minX = 0, minY = 0, maxX = w, maxY = h\<rparr>, \<lambda>x y. (0, 0, 0, 255))),
      draw_NRGBA = (\<lambda>img x y. (0, 0, 0, 255)),
      draw_Gray = (\<lambda>img x y. 0)\<rparr>"

definition camera_params :: "int \<Rightarrow> int \<Rightarrow> int \<Rightarrow> ModelParameters" where
  "camera_params w h ch = emptyModelParameters\<lparr>Sensor := 3, SensorType := SensorTypeCamera,
     ImageInputWidth := w, ImageInputHeight := h, ImageChannelCount := ch\<rparr>"

text \<open>A Gray image of one pixel with intensity 7.\<close>

definition gray_test_image :: image where
  "gray_test_image = GrayImage \<lparr>minX = 0, minY = 0, maxX = 1, maxY = 1\<rparr> (\<lambda>x y. 7)"

text \<open>
  An audio classifier as \<^verbatim>\<open>NewClassifier\<close> returns it for a window of one sample, an
  interval of one sample and a recorder whose first read fails; and the state it reaches
  when the capture activity has run twice, the worker once and a consumer has received
  once.
\<close>

definition read_error_classifier :: "(error + RunnerClassifyResponse) list audio_classifier" where
  "read_error_classifier =
     \<lparr>interval_count = 1,
      win = \<lparr>modelSamples = [0], modelSampleCount = 0\<rparr>,
      audio = [AudioFail], capture = CapReading, samples_closed = False, worker = WReceive,
      runner = [], Events = [], Events_closed = False, delivered = []\<rparr>"

definition after_read_error :: "(error + RunnerClassifyResponse) list audio_classifier" where
  "after_read_error =
     run stub_classify [Capture, Capture, Worker, Consumer] read_error_classifier"

text \<open>
  A runner whose first \<^verbatim>\<open>Classify\<close> fails and whose next two succeed; an audio
  classifier over it with a window of one sample and three intervals of one sample to
  read; and a schedule in which every activity gets its turn after each interval.
\<close>

definition failing_runner :: "(error + RunnerClassifyResponse) list" where
  "failing_runner =
     [Inl (Classifying ''boom''), Inr (test_response ok_status), Inr (test_response ok_status)]"

definition failing_classifier :: "(error + RunnerClassifyResponse) list audio_classifier" where
  "failing_classifier =
     \<lparr>interval_count = 1,
      win = \<lparr>modelSamples = [0], modelSampleCount = 0\<rparr>,
      audio = [Interval [1, 0], Interval [2, 0], Interval [3, 0]],
      capture = CapReading, samples_closed = False, worker = WReceive,
      runner = failing_runner, Events = [], Events_closed = False, delivered = []\<rparr>"

definition fair_schedule :: "activity list" where
  "fair_schedule =
     [Capture, Worker, Worker, Consumer, Capture, Worker, Worker, Consumer,
      Capture, Worker, Worker, Consumer]"

text \<open>
  A runner whose connection delivers a well-formed document that does not unmarshal,
  then the zero byte in a read of its own, then a good response with its zero byte.
\<close>

definition unmarshal_error_runner :: RunnerProcess where
  "unmarshal_error_runner =
     test_runner [Data [123, 121, 125], Data [0], Data [123, 125, 0]]"

text \<open>
  Two callers on one runner. The codec puts the id of a classify request into its bytes,
  so the requests can be told apart on the wire; the connection delivers a good response
  with its zero byte in one read, then a response with a failing status, then its zero
  byte in a read of its own. In the schedule the callers alternate, caller 1 finding the
  mutex taken until caller 0 has returned.
\<close>

definition id_codec :: json_codec where
  "id_codec = test_codec\<lparr>marshal :=
     (\<lambda>req. case req of HelloRequest h \<Rightarrow> Some [123, 104, 125]
                  | ClassifyRequest c \<Rightarrow> Some [123, word_of_int (RequestID c), 125])\<rparr>"

definition caller_data :: "nat \<Rightarrow> float64 list" where
  "caller_data i = [real i]"

definition two_callers :: shared_runner where
  "two_callers =
     \<lparr>mutex = False,
      proc = test_runner [Data [123, 125, 0], Data [123, 120, 125], Data [0]],
      calls = (\<lambda>i. Start (caller_data i)),
      wire = []\<rparr>"

definition interleaved :: "nat list" where
  "interleaved = [0, 1, 0, 1, 0, 1, 0, 1, 0, 1, 0, 1, 0, 1, 1, 1, 1, 1, 1, 1, 1, 1, 1]"

section \<open>Properties of the runner\<close>

subsection \<open>What a successful decode and a successful transaction give\<close>

lemma Decode_Inr: "Decode sc unm c = (Inr (v, rest), c') \<Longrightarrow> \<exists>doc. unm doc = Some v"
  by (auto simp: Decode_def split: prod.splits sum.splits option.splits)

lemma transact_Inr:
  "transact js unm status req r = (Inr resp, r') \<Longrightarrow>
   (\<exists>doc. unm doc = Some resp) \<and> Success (status resp)"
  by (auto simp: transact_def Let_def
      split: option.splits prod.splits sum.splits if_splits dest: Decode_Inr)

lemma helloModelParameters_eq:
  "helloModelParameters mp = mp\<lparr>
     ModelType := (if ModelType mp = [] then ''classification'' else ModelType mp),
     SensorType := (if Sensor mp = 1 then ''microphone''
                    else if Sensor mp = 2 then ''accelerometer''
                    else if Sensor mp = 3 then ''camera''
                    else ''unknown'')\<rparr>"
  by (simp add: helloModelParameters_def sensorTypeOf_def SensorTypeMicrophone_def
      SensorTypeAccelerometer_def SensorTypeCamera_def SensorTypeUnknown_def
      ModelTypeClassification_def Let_def)

lemma fail_Inl: "fail e r w \<noteq> (Inr r', w')"
  by (simp add: fail_def split: prod.splits)

lemma NewRunnerProcess_Inr:
  assumes "NewRunnerProcess js os path ro w = (Inr r, w')"
  shows "\<exists>req r3 h r4. transact js (unmarshal_hello js) HelloStatus req r3 = (Inr h, r4) \<and>
           r = r4\<lparr>modelParams := helloModelParameters (HelloModelParameters h),
                  project := HelloProject h\<rparr>"
  using assms unfolding NewRunnerProcess_def Let_def
  by (auto simp: fail_Inl split: option.splits prod.splits sum.splits if_splits)

lemmas test_defs =
  test_os_def test_codec_def test_world_def test_conn_def test_runner_def test_hello_def
  test_response_def ok_status_def emptyRunnerProcess_def emptyModelParameters_def
  brace_scan_def

lemmas runner_defs =
  NewRunnerProcess_def Classify_def transact_def Decode_def conn_Write_def conn_Read_def
  nextID_def helloModelParameters_def sensorTypeOf_def fail_def Close_def conn_Close_def
  RemoveAll_def Let_def

subsection \<open>Close never reports an error\<close>

text \<open>
  C10. For every runner value, whatever its fields hold (fully constructed, left
  half-built by a failed construction, or closed before), and every state of the
  operating system (removing the directory may fail, the connection may be closed
  already), \<^verbatim>\<open>Close\<close> returns \<^verbatim>\<open>nil\<close>, and so does a second \<^verbatim>\<open>Close\<close> on the runner the
  first one leaves.
\<close>

theorem Close_returns_nil:
  "fst (Close r w) = None \<and>
   fst (Close (fst (snd (Close r w))) (snd (snd (Close r w)))) = None"
  by (simp add: Close_def Let_def)

subsection \<open>Framing: the byte behind every response\<close>

lemma readValue_response:
  assumes fr: "frames sc doc"
    and cat: "buf @ concat chunks = doc @ [z]"
    and short: "length buf < length doc"
    and ne: "[] \<notin> set chunks"
  shows "\<exists>rest chunks' k'.
           readValue sc False buf (map Data chunks @ later) k
             = (Inr (doc, rest), map Data chunks' @ later, k') \<and>
           (rest = [z] \<and> chunks' = [] \<or> rest = [] \<and> chunks' = [[z]])"
  using cat short ne
proof (induction chunks arbitrary: buf k)
  case Nil
  then show ?case by (auto dest: arg_cong [where f = length])
next
  case (Cons ch chunks)
  have "take (length buf) (buf @ concat (ch # chunks)) = take (length buf) (doc @ [z])"
    using Cons.prems(1) by simp
  then have pre: "buf = take (length buf) doc"
    using Cons.prems(2) by simp
  have inc: "sc buf = Incomplete"
    using fr Cons.prems(2) pre unfolding frames_def by metis
  have step: "readValue sc False buf (map Data (ch # chunks) @ later) k
      = readValue sc False (buf @ ch) (map Data chunks @ later) (Suc k)"
    using inc by simp
  have cat': "(buf @ ch) @ concat chunks = doc @ [z]" using Cons.prems(1) by simp
  have chne: "ch \<noteq> []" "[] \<notin> set chunks" using Cons.prems(3) by auto
  show ?case
  proof (cases "length (buf @ ch) < length doc")
    case True
    from Cons.IH [OF cat' True chne(2)] show ?thesis unfolding step by blast
  next
    case False
    then have ge: "length doc \<le> length (buf @ ch)" by simp
    define rest where "rest = drop (length doc) (buf @ ch)"
    have "take (length doc) ((buf @ ch) @ concat chunks) = take (length doc) (doc @ [z])"
      using cat' by simp
    then have "take (length doc) (buf @ ch) = doc"
      using ge by (simp del: append_assoc)
    then have bc: "buf @ ch = doc @ rest"
      unfolding rest_def by (metis append_take_drop_id)
    have "drop (length doc) ((buf @ ch) @ concat chunks) = drop (length doc) (doc @ [z])"
      using cat' by simp
    then have rc: "rest @ concat chunks = [z]"
      unfolding rest_def using ge by (simp del: append_assoc)
    have comp: "sc (buf @ ch) = Complete (length doc)"
      using fr bc unfolding frames_def by simp
    have "readValue sc False (buf @ ch) (map Data chunks @ later) (Suc k)
        = (Inr (doc, rest), map Data chunks @ later, Suc k)"
      using comp bc by (simp del: append_assoc)
    moreover have "rest = [z] \<and> chunks = [] \<or> rest = [] \<and> chunks = [[z]]"
    proof (cases rest)
      case Nil
      then have c: "concat chunks = [z]" using rc by simp
      then obtain c1 cs where cs: "chunks = c1 # cs" by (cases chunks) auto
      with c chne have "c1 = [z]" "concat cs = []"
        by (auto simp: append_eq_Cons_conv)
      moreover from \<open>concat cs = []\<close> chne cs have "cs = []"
        by (cases cs) auto
      ultimately show ?thesis using Nil cs by simp
    next
      case (Cons a as)
      with rc have "rest = [z]" "concat chunks = []" by (auto simp: append_eq_Cons_conv)
      moreover from \<open>concat chunks = []\<close> chne have "chunks = []"
        by (cases chunks) auto
      ultimately show ?thesis by simp
    qed
    ultimately show ?thesis unfolding step by blast
  qed
qed


lemma frames_braces: "frames brace_scan [123, 125]"
  unfolding frames_def brace_scan_def
  by (auto simp: less_Suc_eq numeral_2_eq_2)


text \<open>
  When the response unmarshals, the drain is right. Take any transaction, the hello or a
  classify, on an open connection whose pending input is the response document followed
  by the one zero byte, cut into non-empty chunks in any way, with any later reads behind
  it. The transaction consumes the document and that one byte and nothing of the later
  reads, whether the byte came in the chunk that completed the document (it is then in
  the decoder's buffer) or in a chunk of its own (it is then read from the connection),
  and also when the response reports a failure.
\<close>

lemma transact_consumes_one_sentinel:
  assumes c: "conn r = Some c" and opn: "\<not> conn_closed c" "\<not> peer_gone c"
    and req: "marshal js req = Some bs"
    and fr: "frames (scan js) doc" and unm: "unm doc = Some resp"
    and inb: "inbound c = map Data chunks @ later"
    and cat: "concat chunks = doc @ [0]"
    and ne: "[] \<notin> set chunks"
  shows "\<exists>c'. transact js unm status req r =
           (if Success (status resp) then Inr resp
            else Inl (Classifying (Error (status resp))), r\<lparr>conn := Some c'\<rparr>) \<and>
         inbound c' = later \<and> outbound c' = outbound c @ [bs]"
proof -
  define c1 where "c1 = c\<lparr>io_calls := Suc (io_calls c), outbound := outbound c @ [bs]\<rparr>"
  have w: "conn_Write bs c = (Inr (), c1)"
    using opn by (simp add: conn_Write_def c1_def Let_def)
  have doc: "length [] < length doc" using fr by (simp add: frames_def)
  from readValue_response [OF fr _ doc ne, of 0 later "io_calls c1"] cat
  obtain rest chunks' k' where
    rv: "readValue (scan js) False [] (map Data chunks @ later) (io_calls c1)
           = (Inr (doc, rest), map Data chunks' @ later, k')"
    and alt: "rest = [0] \<and> chunks' = [] \<or> rest = [] \<and> chunks' = [[0]]"
    by auto
  define c2 where "c2 = c1\<lparr>inbound := map Data chunks' @ later, io_calls := k'\<rparr>"
  have d: "Decode (scan js) unm c1 = (Inr (resp, rest), c2)"
    using rv opn inb unm by (simp add: Decode_def c1_def c2_def)
  define c3 where "c3 = (if rest = [] then snd (conn_Read 1 c2) else c2)"
  have t: "transact js unm status req r =
           (if Success (status resp) then Inr resp
            else Inl (Classifying (Error (status resp))), r\<lparr>conn := Some c3\<rparr>)"
    using c req w d by (simp add: transact_def Let_def c3_def)
  have cl2: "\<not> conn_closed c2" using opn by (simp add: c2_def c1_def)
  have "inbound c3 = later \<and> outbound c3 = outbound c @ [bs]"
    using alt
  proof
    assume "rest = [0] \<and> chunks' = []"
    then show ?thesis by (simp add: c3_def c2_def c1_def)
  next
    assume "rest = [] \<and> chunks' = [[0]]"
    then show ?thesis using cl2 by (simp add: c3_def conn_Read_def Let_def) (simp add: c2_def c1_def)
  qed
  with t show ?thesis by blast
qed

lemma transact_consumes_one_sentinel_example:
  "(\<exists>c'. transact test_codec (unmarshal_classify test_codec) ClassifyStatus
            (ClassifyRequest \<lparr>RequestID = 2, Classify_data = [1, 2]\<rparr>)
            (test_runner [Data [123, 125, 0], Data [123, 120, 125, 0]])
          = (Inr (test_response ok_status),
             (test_runner [Data [123, 125, 0], Data [123, 120, 125, 0]])\<lparr>conn := Some c'\<rparr>) \<and>
         inbound c' = [Data [123, 120, 125, 0]] \<and> outbound c' = [[123, 99, 125]]) \<and>
   (\<exists>c'. transact test_codec (unmarshal_classify test_codec) ClassifyStatus
            (ClassifyRequest \<lparr>RequestID = 2, Classify_data = [1, 2]\<rparr>)
            (test_runner [Data [123], Data [125], Data [0], Data [123, 120, 125, 0]])
          = (Inr (test_response ok_status),
             (test_runner [Data [123], Data [125], Data [0], Data [123, 120, 125, 0]])
               \<lparr>conn := Some c'\<rparr>) \<and>
         inbound c' = [Data [123, 120, 125, 0]] \<and> outbound c' = [[123, 99, 125]])"
proof -
  let ?req = "ClassifyRequest \<lparr>RequestID = 2, Classify_data = [1, 2]\<rparr>"
  let ?later = "[Data [123, 120, 125, 0]]"
  have fr: "frames (scan test_codec) [123, 125]"
    using frames_braces by (simp add: test_codec_def)
  have m: "marshal test_codec ?req = Some [123, 99, 125]"
    by (simp add: test_codec_def)
  have u: "unmarshal_classify test_codec [123, 125] = Some (test_response ok_status)"
    by (simp add: test_codec_def)
  have s: "Success (ClassifyStatus (test_response ok_status))"
    by (simp add: test_response_def ok_status_def)
  have a: "\<exists>c'. transact test_codec (unmarshal_classify test_codec) ClassifyStatus ?req
            (test_runner (Data [123, 125, 0] # ?later))
          = (Inr (test_response ok_status),
             (test_runner (Data [123, 125, 0] # ?later))\<lparr>conn := Some c'\<rparr>) \<and>
         inbound c' = ?later \<and> outbound c' = [[123, 99, 125]]"
    using transact_consumes_one_sentinel
      [of "test_runner (Data [123, 125, 0] # ?later)" "test_conn (Data [123, 125, 0] # ?later)"
          test_codec ?req "[123, 99, 125]" "[123, 125]" "unmarshal_classify test_codec"
          "test_response ok_status" "[[123, 125, 0]]" ?later ClassifyStatus, OF _ _ _ m fr u]
      s
    by (simp add: test_runner_def test_conn_def)
  have b: "\<exists>c'. transact test_codec (unmarshal_classify test_codec) ClassifyStatus ?req
            (test_runner (Data [123] # Data [125] # Data [0] # ?later))
          = (Inr (test_response ok_status),
             (test_runner (Data [123] # Data [125] # Data [0] # ?later))\<lparr>conn := Some c'\<rparr>) \<and>
         inbound c' = ?later \<and> outbound c' = [[123, 99, 125]]"
    using transact_consumes_one_sentinel
      [of "test_runner (Data [123] # Data [125] # Data [0] # ?later)"
          "test_conn (Data [123] # Data [125] # Data [0] # ?later)"
          test_codec ?req "[123, 99, 125]" "[123, 125]" "unmarshal_classify test_codec"
          "test_response ok_status" "[[123], [125], [0]]" ?later ClassifyStatus, OF _ _ _ m fr u]
      s
    by (simp add: test_runner_def test_conn_def)
  from a b show ?thesis by simp
qed

text \<open>
  C1. The code at the failing input: the response is a complete document that does not
  unmarshal into the response type, and its zero byte arrives in a read of its own. The
  transaction returns the decode error before it drains, so the zero byte stays unread
  on the transport. The next transaction writes its request, reads that zero byte where
  its response should start and fails with a syntax error; its own response stays unread
  for the call after it.
\<close>

theorem transact_leaves_sentinel_after_unmarshal_error:
  "fst (Classify test_codec [1] unmarshal_error_runner) = Inl (ReadingJSON UnmarshalError) \<and>
   map_option inbound (conn (snd (Classify test_codec [1] unmarshal_error_runner)))
     = Some [Data [0], Data [123, 125, 0]] \<and>
   fst (Classify test_codec [1] (snd (Classify test_codec [1] unmarshal_error_runner)))
     = Inl (ReadingJSON SyntaxError) \<and>
   map_option inbound
     (conn (snd (Classify test_codec [1] (snd (Classify test_codec [1] unmarshal_error_runner)))))
     = Some [Data [123, 125, 0]] \<and>
   map_option outbound
     (conn (snd (Classify test_codec [1] (snd (Classify test_codec [1] unmarshal_error_runner)))))
     = Some [[123, 99, 125], [123, 99, 125]]"
  by (simp add: Classify_def transact_def Decode_def conn_Write_def conn_Read_def nextID_def
      Let_def unmarshal_error_runner_def test_defs)

subsection \<open>The handshake fixes sensor type and model type\<close>

text \<open>
  Whenever \<^verbatim>\<open>NewRunnerProcess\<close> returns a runner, its model parameters come from a
  decoded, successful hello response in this way.
\<close>

lemma NewRunnerProcess_modelParams:
  assumes "NewRunnerProcess js os path ro w = (Inr r, w')"
  shows "\<exists>doc h. unmarshal_hello js doc = Some h \<and> Success (HelloStatus h) \<and>
           modelParams r = (HelloModelParameters h)\<lparr>
             ModelType := (if ModelType (HelloModelParameters h) = [] then ''classification''
                           else ModelType (HelloModelParameters h)),
             SensorType := (if Sensor (HelloModelParameters h) = 1 then ''microphone''
                            else if Sensor (HelloModelParameters h) = 2 then ''accelerometer''
                            else if Sensor (HelloModelParameters h) = 3 then ''camera''
                            else ''unknown'')\<rparr>"
proof -
  from NewRunnerProcess_Inr [OF assms] obtain req r3 h r4 where
    t: "transact js (unmarshal_hello js) HelloStatus req r3 = (Inr h, r4)" and
    r: "r = r4\<lparr>modelParams := helloModelParameters (HelloModelParameters h),
                  project := HelloProject h\<rparr>"
    by blast
  from transact_Inr [OF t] obtain doc where
    "unmarshal_hello js doc = Some h" "Success (HelloStatus h)" by blast
  moreover have "modelParams r = helloModelParameters (HelloModelParameters h)"
    by (simp add: r)
  ultimately show ?thesis
    unfolding helloModelParameters_eq by blast
qed

lemma dial_loop_from:
  assumes d: "d k = Connected c" and before: "\<forall>j<k. d j = ENOENT" and k: "k \<le> 1000"
  shows "i \<le> k \<Longrightarrow> dial_loop d i = Inr c"
proof (induction "k - i" arbitrary: i)
  case 0
  then have "i = k" by simp
  then show ?case using d by (simp add: dial_loop.simps)
next
  case (Suc n)
  then have lt: "i < k" and ih: "dial_loop d (Suc i) = Inr c" by auto
  from lt before have "d i = ENOENT" by simp
  moreover from lt k have "\<not> 1000 \<le> i" by simp
  ultimately show ?case using ih by (subst dial_loop.simps) simp
qed

lemma dial_loop_connects:
  "d k = Connected c \<Longrightarrow> \<forall>j<k. d j = ENOENT \<Longrightarrow> k \<le> 1000 \<Longrightarrow> dial_loop d 0 = Inr c"
  by (rule dial_loop_from) simp_all

text \<open>
  C6. Let the operating system let the construction through (the path resolves, a
  temporary directory can be made, the model process starts, the socket appears within
  the retry budget and the connection is open), and let the model process answer the
  hello request with any document that unmarshals to a successful hello response \<open>h\<close>,
  followed by its zero byte. Then \<^verbatim>\<open>NewRunnerProcess\<close> returns a runner, whatever the
  sensor code of \<open>h\<close> is, and the runner's model parameters are those of \<open>h\<close> with two
  fields set: the sensor type is decided by the sensor code alone (1 microphone,
  2 accelerometer, 3 camera, anything else unknown), and an empty model type, which is
  what an absent \<^verbatim>\<open>model_type\<close> decodes to, becomes "classification".
\<close>

theorem NewRunnerProcess_handshake:
  assumes abs: "abs_path os path = Some p"
    and dir: "temp_dir os = Some tmp"
    and start: "start_ok os"
    and dial: "dial os k = Connected c" "\<forall>j<k. dial os j = ENOENT" "k \<le> 1000"
    and opn: "\<not> conn_closed c" "\<not> peer_gone c"
    and m: "marshal js (HelloRequest \<lparr>HelloID = 1, Hello = 1\<rparr>) = Some bs"
    and inb: "inbound c = map Data chunks @ later"
    and cat: "concat chunks = doc @ [0]"
    and ne: "[] \<notin> set chunks"
    and fr: "frames (scan js) doc"
    and unm: "unmarshal_hello js doc = Some h"
    and ok: "Success (HelloStatus h)"
  shows "\<exists>r w'. NewRunnerProcess js os path ro w = (Inr r, w') \<and>
           modelParams r = (HelloModelParameters h)\<lparr>
             ModelType := (if ModelType (HelloModelParameters h) = [] then ''classification''
                           else ModelType (HelloModelParameters h)),
             SensorType := (if Sensor (HelloModelParameters h) = 1 then ''microphone''
                            else if Sensor (HelloModelParameters h) = 2 then ''accelerometer''
                            else if Sensor (HelloModelParameters h) = 3 then ''camera''
                            else ''unknown'')\<rparr> \<and>
           project r = HelloProject h"
proof -
  have dl: "dial_loop (dial os) 0 = Inr c"
    using dial by (rule dial_loop_connects)
  have tr: "\<exists>c'. transact js (unmarshal_hello js) HelloStatus
                    (HelloRequest \<lparr>HelloID = 1, Hello = 1\<rparr>) r
                  = (Inr h, r\<lparr>conn := Some c'\<rparr>)"
    if "conn r = Some c" for r :: RunnerProcess
    using transact_consumes_one_sentinel
      [where unm = "unmarshal_hello js" and status = HelloStatus, OF that opn m fr unm inb cat ne] ok
    by auto
  define r0 where "r0 = (case ro of None \<Rightarrow> emptyRunnerProcess
                         | Some x \<Rightarrow> emptyRunnerProcess\<lparr>opts := x\<rparr>)"
  have l0: "lastID r0 = 0" by (simp add: r0_def emptyRunnerProcess_def split: option.splits)
  have tr': "\<exists>c'. transact js (unmarshal_hello js) HelloStatus
                    (HelloRequest \<lparr>HelloID = 1, Hello = 1\<rparr>)
                    (r\<lparr>cancel := True, conn := Some c, lastID := 1\<rparr>)
                  = (Inr h, r\<lparr>cancel := True, conn := Some c, lastID := 1\<rparr>\<lparr>conn := Some c'\<rparr>)"
    for r :: RunnerProcess
    by (rule tr) simp
  show ?thesis
  proof (cases "WorkDir (opts r0) = []")
    case True
    from tr' [of "r0\<lparr>opts := (opts r0)\<lparr>WorkDir := tmp\<rparr>, tempDir := tmp\<rparr>"] obtain c' where
      "transact js (unmarshal_hello js) HelloStatus (HelloRequest \<lparr>HelloID = 1, Hello = 1\<rparr>)
         (r0\<lparr>opts := (opts r0)\<lparr>WorkDir := tmp\<rparr>, tempDir := tmp,
             cancel := True, conn := Some c, lastID := 1\<rparr>)
       = (Inr h, r0\<lparr>opts := (opts r0)\<lparr>WorkDir := tmp\<rparr>, tempDir := tmp,
             cancel := True, conn := Some c, lastID := 1\<rparr>\<lparr>conn := Some c'\<rparr>)"
      by auto
    then show ?thesis
      using abs dir start dl l0 True
      by (simp add: NewRunnerProcess_def Let_def nextID_def r0_def [symmetric]
          helloModelParameters_eq del: dial_loop.simps)
  next
    case False
    from tr' [of r0] obtain c' where
      "transact js (unmarshal_hello js) HelloStatus (HelloRequest \<lparr>HelloID = 1, Hello = 1\<rparr>)
         (r0\<lparr>cancel := True, conn := Some c, lastID := 1\<rparr>)
       = (Inr h, r0\<lparr>cancel := True, conn := Some c, lastID := 1\<rparr>\<lparr>conn := Some c'\<rparr>)"
      by auto
    then show ?thesis
      using abs dir start dl l0 False
      by (simp add: NewRunnerProcess_def Let_def nextID_def r0_def [symmetric]
          helloModelParameters_eq del: dial_loop.simps)
  qed
qed

theorem NewRunnerProcess_handshake_witness:
  "(\<exists>r w'. NewRunnerProcess test_codec (test_os [Data [123, 125, 0]]) ''model.eim'' None test_world
             = (Inr r, w') \<and>
           Sensor (modelParams r) = 1 \<and> SensorType (modelParams r) = ''microphone'' \<and>
           ModelType (modelParams r) = ''classification'' \<and>
           project r = \<lparr>DeployVersion = 1, ProjectID = 1, Name = ''p'', Owner = ''o''\<rparr>) \<and>
   (\<exists>r w'. NewRunnerProcess test_codec (test_os [Data [123, 117], Data [125], Data [0]])
               ''model.eim'' None test_world
             = (Inr r, w') \<and>
           Sensor (modelParams r) = 7 \<and> SensorType (modelParams r) = ''unknown'' \<and>
           ModelType (modelParams r) = ''classification'')"
proof -
  have m: "marshal test_codec (HelloRequest \<lparr>HelloID = 1, Hello = 1\<rparr>) = Some [123, 104, 125]"
    by (simp add: test_codec_def)
  have fr: "frames (scan test_codec) [123, 125]"
    using frames_braces by (simp add: test_codec_def)
  have fu: "frames (scan test_codec) [123, 117, 125]"
    unfolding frames_def by (auto simp: test_codec_def brace_scan_def less_Suc_eq numeral_3_eq_3)
  have u1: "unmarshal_hello test_codec [123, 125] = Some test_hello"
    by (simp add: test_codec_def)
  have u7: "unmarshal_hello test_codec [123, 117, 125] =
      Some (test_hello\<lparr>HelloModelParameters := (HelloModelParameters test_hello)\<lparr>Sensor := 7\<rparr>\<rparr>)"
    by (simp add: test_codec_def)
  have os: "abs_path (test_os evs) ''model.eim'' = Some ''model.eim''"
      "temp_dir (test_os evs) = Some ''/tmp/edge-impulse-cli1''"
      "start_ok (test_os evs)"
      "dial (test_os evs) 2 = Connected (test_conn evs)"
      "\<forall>j<2. dial (test_os evs) j = ENOENT"
      "(2 :: nat) \<le> 1000"
      "\<not> conn_closed (test_conn evs)" "\<not> peer_gone (test_conn evs)"
    for evs
    by (simp_all add: test_os_def test_conn_def)
  have ok1: "Success (HelloStatus test_hello)"
    and ok7: "Success (HelloStatus (test_hello\<lparr>HelloModelParameters :=
                (HelloModelParameters test_hello)\<lparr>Sensor := 7\<rparr>\<rparr>))"
    by (simp_all add: test_hello_def ok_status_def)
  have i1: "inbound (test_conn [Data [123, 125, 0]]) = map Data [[123, 125, 0]] @ []"
    and i7: "inbound (test_conn [Data [123, 117], Data [125], Data [0]])
             = map Data [[123, 117], [125], [0]] @ []"
    by (simp_all add: test_conn_def)
  from NewRunnerProcess_handshake [OF os m i1 _ _ fr u1 ok1, of None test_world]
  have a: "\<exists>r w'. NewRunnerProcess test_codec (test_os [Data [123, 125, 0]]) ''model.eim'' None
             test_world = (Inr r, w') \<and>
           Sensor (modelParams r) = 1 \<and> SensorType (modelParams r) = ''microphone'' \<and>
           ModelType (modelParams r) = ''classification'' \<and>
           project r = \<lparr>DeployVersion = 1, ProjectID = 1, Name = ''p'', Owner = ''o''\<rparr>"
    by (simp add: test_hello_def emptyModelParameters_def) force
  from NewRunnerProcess_handshake [OF os m i7 _ _ fu u7 ok7, of None test_world]
  have b: "\<exists>r w'. NewRunnerProcess test_codec (test_os [Data [123, 117], Data [125], Data [0]])
               ''model.eim'' None test_world = (Inr r, w') \<and>
           Sensor (modelParams r) = 7 \<and> SensorType (modelParams r) = ''unknown'' \<and>
           ModelType (modelParams r) = ''classification''"
    by (simp add: test_hello_def emptyModelParameters_def) force
  from a b show ?thesis by blast
qed

subsection \<open>A failed transaction leaves no mark on the runner\<close>

lemma readValue_calls:
  "readValue sc shut buf evs k = (res, evs', k') \<Longrightarrow> k \<le> k'"
proof (induction evs arbitrary: buf k)
  case Nil
  then show ?case by (auto split: scan_result.splits if_splits)
next
  case (Cons ev evs)
  show ?case
  proof (cases "sc buf = Incomplete \<and> \<not> shut")
    case False
    with Cons.prems show ?thesis by (auto split: scan_result.splits if_splits)
  next
    case True
    show ?thesis
    proof (cases ev)
      case (Data ch)
      with True Cons.prems have "readValue sc shut (buf @ ch) evs (Suc k) = (res, evs', k')"
        by simp
      from Cons.IH [OF this] show ?thesis by simp
    next
      case ReadFail
      with True Cons.prems show ?thesis by auto
    qed
  qed
qed

lemma Decode_conn:
  assumes "Decode sc unm c = (res, c')"
  shows "io_calls c \<le> io_calls c' \<and> outbound c' = outbound c \<and>
         conn_closed c' = conn_closed c \<and> peer_gone c' = peer_gone c"
proof -
  obtain x evs k where rv: "readValue sc (conn_closed c) [] (inbound c) (io_calls c) = (x, evs, k)"
    by (metis prod_cases3)
  from readValue_calls [OF rv] have "io_calls c \<le> k" .
  with assms rv show ?thesis
    by (auto simp: Decode_def split: sum.splits option.splits prod.splits)
qed

lemma conn_Read_conn:
  "conn_Read n c = (res, c') \<Longrightarrow>
   io_calls c' = Suc (io_calls c) \<and> outbound c' = outbound c \<and>
   conn_closed c' = conn_closed c \<and> peer_gone c' = peer_gone c"
  by (auto simp: conn_Read_def Let_def split: if_splits list.splits read_event.splits)

lemma transact_attempts_write:
  assumes c: "conn r = Some c" and m: "marshal js req = Some bs"
  shows "\<exists>res c'. transact js unm status req r = (res, r\<lparr>conn := Some c'\<rparr>) \<and>
           io_calls c < io_calls c' \<and>
           conn_closed c' = conn_closed c \<and> peer_gone c' = peer_gone c \<and>
           outbound c' = (if conn_closed c \<or> peer_gone c then outbound c else outbound c @ [bs])"
proof (cases "conn_closed c \<or> peer_gone c")
  case True
  then show ?thesis using c m
    by (auto simp: transact_def conn_Write_def Let_def)
next
  case False
  define c1 where "c1 = c\<lparr>io_calls := Suc (io_calls c), outbound := outbound c @ [bs]\<rparr>"
  have w: "conn_Write bs c = (Inr (), c1)"
    using False by (simp add: conn_Write_def c1_def Let_def)
  obtain dres c2 where d: "Decode (scan js) unm c1 = (dres, c2)" by (cases "Decode (scan js) unm c1")
  from Decode_conn [OF d] have c2: "io_calls c1 \<le> io_calls c2" "outbound c2 = outbound c1"
    "conn_closed c2 = conn_closed c1" "peer_gone c2 = peer_gone c1" by simp_all
  obtain rres c3 where rd: "conn_Read 1 c2 = (rres, c3)" by (cases "conn_Read 1 c2")
  from conn_Read_conn [OF rd] have c3: "io_calls c3 = Suc (io_calls c2)" "outbound c3 = outbound c2"
    "conn_closed c3 = conn_closed c2" "peer_gone c3 = peer_gone c2" by simp_all
  show ?thesis
  proof (cases dres)
    case (Inl e)
    then show ?thesis using c m w d c2 False
      by (auto simp: transact_def c1_def)
  next
    case (Inr p)
    obtain resp buffered where p: "p = (resp, buffered)" by (cases p)
    show ?thesis
    proof (cases "buffered = []")
      case True
      then show ?thesis using c m w d c2 c3 rd False Inr p
        by (auto simp: transact_def Let_def c1_def)
    next
      case nb: False
      then show ?thesis using c m w d c2 False Inr p
        by (auto simp: transact_def Let_def c1_def)
    qed
  qed
qed

lemma transact_conn_Some:
  "conn r = Some c \<Longrightarrow> transact js unm status req r = (res, r') \<Longrightarrow> \<exists>c'. conn r' = Some c'"
  by (auto simp: transact_def Let_def split: option.splits prod.splits sum.splits if_splits)

lemma Classify_conn_Some:
  "conn r = Some c \<Longrightarrow> Classify js d r = (res, r') \<Longrightarrow> \<exists>c'. conn r' = Some c'"
  using transact_conn_Some [of "r\<lparr>lastID := lastID r + 1\<rparr>" c js "unmarshal_classify js"
      ClassifyStatus "ClassifyRequest \<lparr>RequestID = lastID r + 1, Classify_data = d\<rparr>" res r']
  by (simp add: Classify_def nextID_def)

text \<open>
  C4 (amended). The runner keeps no record of a failed transaction. After a
  \<^verbatim>\<open>Classify\<close> call that returned an error, transport errors included, the runner
  still has its connection, and the next \<^verbatim>\<open>Classify\<close> call with data that encodes takes
  the next id and goes to the transport again: it issues at least one more call on the
  connection, and on a connection that is open with the model process alive it writes
  its request. Its result is whatever that transaction gives.
\<close>

theorem Classify_after_error_attempts_IO_again:
  assumes err: "Classify js d0 r0 = (Inl e, r)" and c0: "conn r0 = Some c0"
    and m: "marshal js (ClassifyRequest \<lparr>RequestID = lastID r + 1, Classify_data = data\<rparr>) = Some bs"
  shows "\<exists>c res c'. conn r = Some c \<and>
           Classify js data r = (res, r\<lparr>lastID := lastID r + 1, conn := Some c'\<rparr>) \<and>
           io_calls c < io_calls c' \<and>
           outbound c' = (if conn_closed c \<or> peer_gone c then outbound c else outbound c @ [bs])"
proof -
  from Classify_conn_Some [OF c0 err] obtain c where c: "conn r = Some c" by blast
  let ?r1 = "r\<lparr>lastID := lastID r + 1\<rparr>"
  have c1: "conn ?r1 = Some c" using c by simp
  from transact_attempts_write [OF c1 m, of "unmarshal_classify js" ClassifyStatus]
  obtain res c' where
    "transact js (unmarshal_classify js) ClassifyStatus
       (ClassifyRequest \<lparr>RequestID = lastID r + 1, Classify_data = data\<rparr>) ?r1
       = (res, ?r1\<lparr>conn := Some c'\<rparr>)"
    "io_calls c < io_calls c'"
    "outbound c' = (if conn_closed c \<or> peer_gone c then outbound c else outbound c @ [bs])"
    by blast
  then show ?thesis using c by (auto simp: Classify_def nextID_def)
qed

lemmas runner_eval =
  Classify_def transact_def Decode_def conn_Write_def conn_Read_def nextID_def Let_def

text \<open>
  C4, as stated, fails: the first call below fails with a read error on the transport,
  the second call on the same runner writes its request, reads, and returns a successful
  response.
\<close>

theorem Classify_succeeds_after_transport_error:
  "fst (Classify test_codec [1] (test_runner [ReadFail, Data [123, 125, 0]]))
     = Inl (ReadingJSON (IOError ReadFailed)) \<and>
   fst (Classify test_codec [1]
          (snd (Classify test_codec [1] (test_runner [ReadFail, Data [123, 125, 0]]))))
     = Inr (test_response ok_status) \<and>
   map_option outbound
     (conn (snd (Classify test_codec [1]
          (snd (Classify test_codec [1] (test_runner [ReadFail, Data [123, 125, 0]]))))))
     = Some [[123, 99, 125], [123, 99, 125]] \<and>
   map_option io_calls
     (conn (snd (Classify test_codec [1] (test_runner [ReadFail, Data [123, 125, 0]]))))
     = Some 2 \<and>
   map_option io_calls
     (conn (snd (Classify test_codec [1]
          (snd (Classify test_codec [1] (test_runner [ReadFail, Data [123, 125, 0]]))))))
     = Some 4"
  by (simp add: runner_eval test_defs)

theorem Classify_after_error_attempts_IO_again_witness:
  "\<exists>e r c res c'.
     Classify test_codec [1] (test_runner [ReadFail, Data [123, 125, 0]]) = (Inl e, r) \<and>
     conn r = Some c \<and>
     Classify test_codec [1] r = (res, r\<lparr>lastID := lastID r + 1, conn := Some c'\<rparr>) \<and>
     io_calls c < io_calls c' \<and> outbound c' = outbound c @ [[123, 99, 125]]"
proof -
  let ?r0 = "test_runner [ReadFail, Data [123, 125, 0]]"
  have "\<exists>e r c. Classify test_codec [1] ?r0 = (Inl e, r) \<and> conn r = Some c \<and>
      \<not> conn_closed c \<and> \<not> peer_gone c"
    by (simp add: runner_eval test_defs)
  then obtain e r c where
    err: "Classify test_codec [1] ?r0 = (Inl e, r)" and c: "conn r = Some c"
    and opn: "\<not> conn_closed c" "\<not> peer_gone c"
    by blast
  have c0: "conn ?r0 = Some (test_conn [ReadFail, Data [123, 125, 0]])"
    by (simp add: test_runner_def)
  have m: "marshal test_codec (ClassifyRequest \<lparr>RequestID = lastID r + 1, Classify_data = [1]\<rparr>)
      = Some [123, 99, 125]"
    by (simp add: test_codec_def)
  from Classify_after_error_attempts_IO_again [OF err c0 m] c opn
  have "\<exists>res c'. Classify test_codec [1] r = (res, r\<lparr>lastID := lastID r + 1, conn := Some c'\<rparr>) \<and>
      io_calls c < io_calls c' \<and> outbound c' = outbound c @ [[123, 99, 125]]"
    by auto
  with err c show ?thesis by blast
qed

section \<open>Properties of the pipelines\<close>

subsection \<open>A pipeline refuses a model of the wrong sensor\<close>

text \<open>
  C8. \<^verbatim>\<open>audio.NewClassifier\<close> on model parameters whose sensor type is not microphone
  returns a sensor-mismatch error and leaves the recorder as it was: its reader has not
  been asked for and nothing of its audio has been read, and no classifier exists whose
  activities could run. The same holds for \<^verbatim>\<open>image.NewClassifier\<close> and camera.
\<close>

theorem NewClassifier_sensor_mismatch:
  "(SensorType mp \<noteq> SensorTypeMicrophone \<longrightarrow>
      audio_NewClassifier mp r arec n = (Inl (SensorMismatch (SensorType mp)), arec)) \<and>
   (SensorType mp \<noteq> SensorTypeCamera \<longrightarrow>
      image_NewClassifier mp r irec = (Inl (SensorMismatch (SensorType mp)), irec))"
  by (simp add: audio_NewClassifier_def image_NewClassifier_def)

theorem NewClassifier_sensor_mismatch_witness:
  "SensorType (emptyModelParameters\<lparr>SensorType := SensorTypeAccelerometer\<rparr>)
     \<noteq> SensorTypeMicrophone \<and>
   SensorType (emptyModelParameters\<lparr>SensorType := SensorTypeAccelerometer\<rparr>)
     \<noteq> SensorTypeCamera \<and>
   audio_NewClassifier (emptyModelParameters\<lparr>SensorType := SensorTypeAccelerometer\<rparr>) ()
       \<lparr>reader_calls = 0, audio_script = [Interval [1, 0]]\<rparr> 1
     = (Inl (SensorMismatch ''accelerometer''),
        \<lparr>reader_calls = 0, audio_script = [Interval [1, 0]]\<rparr>) \<and>
   image_NewClassifier (emptyModelParameters\<lparr>SensorType := SensorTypeAccelerometer\<rparr>) ()
       \<lparr>events_calls = 0, image_script = [RecorderClosed]\<rparr>
     = (Inl (SensorMismatch ''accelerometer''),
        \<lparr>events_calls = 0, image_script = [RecorderClosed]\<rparr>)"
  using NewClassifier_sensor_mismatch
    [of "emptyModelParameters\<lparr>SensorType := SensorTypeAccelerometer\<rparr>" "()"
        "\<lparr>reader_calls = 0, audio_script = [Interval [1, 0]]\<rparr>" 1
        "\<lparr>events_calls = 0, image_script = [RecorderClosed]\<rparr>"]
  by (simp add: emptyModelParameters_def SensorTypeAccelerometer_def SensorTypeMicrophone_def
      SensorTypeCamera_def)

subsection \<open>The sliding window of the audio classifier\<close>

lemma length_decode_stream: "length (decode_stream bs) = length bs div 2"
  by (induction bs rule: decode_stream.induct) auto

lemma decode_stream_append:
  "even (length as) \<Longrightarrow> decode_stream (as @ bs) = decode_stream as @ decode_stream bs"
  by (induction as rule: decode_stream.induct) auto

lemma decode_stream_drop:
  "decode_stream (drop (2 * k) bs) = drop k (decode_stream bs)"
proof (induction k arbitrary: bs)
  case 0
  then show ?case by simp
next
  case (Suc k)
  show ?case
  proof (cases bs)
    case Nil
    then show ?thesis by simp
  next
    case (Cons lo bs')
    show ?thesis
    proof (cases bs')
      case Nil
      then show ?thesis using Cons by simp
    next
      case (Cons hi rest)
      then show ?thesis using \<open>bs = lo # bs'\<close> Suc.IH [of rest] by simp
    qed
  qed
qed

lemma decode_loop_eq:
  "0 \<le> idx \<Longrightarrow> nat idx + n \<le> length ms \<Longrightarrow> length rd = 2 * n \<Longrightarrow>
   decode_loop n idx rd ms = Inr (take (nat idx) ms @ decode_stream rd @ drop (nat idx + n) ms)"
proof (induction n arbitrary: idx rd ms)
  case 0
  then show ?case by simp
next
  case (Suc n)
  from Suc.prems obtain lo hi rest where rd: "rd = lo # hi # rest"
    by (cases rd; cases "tl rd") auto
  let ?v = "float64_of_int16 (le_int16 lo hi)"
  have st: "store ms idx ?v = Inr (ms[nat idx := ?v])"
    using Suc.prems by (simp add: store_def)
  have "decode_loop n (idx + 1) rest (ms[nat idx := ?v])
      = Inr (take (nat (idx + 1)) (ms[nat idx := ?v]) @ decode_stream rest
             @ drop (nat (idx + 1) + n) (ms[nat idx := ?v]))"
    using Suc.prems rd by (intro Suc.IH) (auto simp: nat_add_distrib)
  moreover have "nat (idx + 1) = Suc (nat idx)" using Suc.prems by simp
  moreover have "take (Suc (nat idx)) (ms[nat idx := ?v]) = take (nat idx) ms @ [?v]"
    using Suc.prems by (simp add: take_Suc_conv_app_nth)
  ultimately show ?case
    using st rd by simp
qed


lemma append_interval_small:
  assumes n: "0 \<le> n" and len: "length buf = 2 * nat n"
    and c0: "0 \<le> modelSampleCount w" and fit: "modelSampleCount w + n \<le> int (length (modelSamples w))"
  shows "append_interval n buf w =
     Inr \<lparr>modelSamples = take (nat (modelSampleCount w)) (modelSamples w) @ decode_stream buf
                          @ drop (nat (modelSampleCount w) + nat n) (modelSamples w),
          modelSampleCount = modelSampleCount w + n\<rparr>"
proof -
  have "decode_loop (nat n) (modelSampleCount w) buf (modelSamples w)
      = Inr (take (nat (modelSampleCount w)) (modelSamples w) @ decode_stream buf
             @ drop (nat (modelSampleCount w) + nat n) (modelSamples w))"
    using assms by (intro decode_loop_eq) auto
  then show ?thesis
    using assms by (simp add: append_interval_def Let_def)
qed

lemma append_interval_shift:
  assumes n: "0 \<le> n" and len: "length buf = 2 * nat n"
    and c0: "0 \<le> modelSampleCount w" and c1: "modelSampleCount w \<le> int (length (modelSamples w))"
    and nW: "n \<le> int (length (modelSamples w))"
    and over: "modelSampleCount w + n > int (length (modelSamples w))"
  shows "append_interval n buf w =
     Inr \<lparr>modelSamples =
            drop (nat (modelSampleCount w + n) - length (modelSamples w))
              (take (nat (modelSampleCount w)) (modelSamples w)) @ decode_stream buf,
          modelSampleCount = int (length (modelSamples w))\<rparr>"
proof -
  let ?ms = "modelSamples w"
  let ?W = "length ?ms"
  let ?c = "modelSampleCount w"
  let ?sh = "?c + n - int ?W"
  have sh: "0 \<le> ?sh" "?sh \<le> ?c" "?sh \<le> int ?W" using assms by auto
  have sl: "slice_from ?ms ?sh = Inr (drop (nat ?sh) ?ms)"
    using sh by (simp add: slice_from_def)
  let ?ms1 = "copy_go ?ms (drop (nat ?sh) ?ms)"
  have ms1: "?ms1 = drop (nat ?sh) ?ms @ drop (?W - nat ?sh) ?ms"
    by (simp add: copy_go_def min_def)
  have l1: "length ?ms1 = ?W" using sh by (simp add: ms1)
  have start: "?c - ?sh = int ?W - n" by simp
  have dl: "decode_loop (nat n) (int ?W - n) buf ?ms1
      = Inr (take (nat (int ?W - n)) ?ms1 @ decode_stream buf @ drop (nat (int ?W - n) + nat n) ?ms1)"
    using assms l1 by (intro decode_loop_eq) auto
  have d0: "drop (nat (int ?W - n) + nat n) ?ms1 = []"
    using assms l1 by simp
  have t0: "take (nat (int ?W - n)) ?ms1 = drop (nat ?sh) (take (nat ?c) ?ms)"
  proof -
    have le: "nat (int ?W - n) \<le> length (drop (nat ?sh) ?ms)" using assms sh by simp
    have eq: "nat (int ?W - n) = nat ?c - nat ?sh" using assms sh by linarith
    have "take (nat (int ?W - n)) ?ms1 = take (nat (int ?W - n)) (drop (nat ?sh) ?ms)"
      using le by (simp add: ms1)
    also have "\<dots> = take (nat ?c - nat ?sh) (drop (nat ?sh) ?ms)"
      by (simp only: eq)
    also have "\<dots> = drop (nat ?sh) (take (nat ?c) ?ms)"
      by (simp add: drop_take)
    finally show ?thesis .
  qed
  have shn: "nat ?sh = nat (?c + n) - ?W" using assms by linarith
  show ?thesis
    using assms sl dl d0 t0 shn
    by (simp add: append_interval_def Let_def start)
qed

lemma append_interval_large:
  assumes n: "0 \<le> n" and len: "length buf = 2 * nat n"
    and c0: "0 \<le> modelSampleCount w" and c1: "modelSampleCount w \<le> int (length (modelSamples w))"
    and nW: "n > int (length (modelSamples w))"
  shows "append_interval n buf w =
     Inr \<lparr>modelSamples = drop (nat n - length (modelSamples w)) (decode_stream buf),
          modelSampleCount = int (length (modelSamples w))\<rparr>"
proof -
  let ?ms = "modelSamples w"
  let ?W = "length ?ms"
  let ?c = "modelSampleCount w"
  let ?buf = "drop (nat (2 * (n - int ?W))) buf"
  have sl: "slice_from buf (2 * (n - int ?W)) = Inr ?buf"
    using assms by (simp add: slice_from_def)
  have lb: "length ?buf = 2 * ?W" using assms by auto
  have "nat (2 * (n - int ?W)) = 2 * (nat n - ?W)"
    using assms by (simp add: nat_mult_distrib nat_diff_distrib')
  then have ds: "decode_stream ?buf = drop (nat n - ?W) (decode_stream buf)"
    by (simp add: decode_stream_drop)
  have lds: "length (decode_stream ?buf) = ?W"
    unfolding length_decode_stream lb by simp
  show ?thesis
  proof (cases "?c = 0")
    case True
    have "decode_loop ?W 0 ?buf ?ms = Inr (take (nat 0) ?ms @ decode_stream ?buf @ drop (nat 0 + ?W) ?ms)"
      using lb by (intro decode_loop_eq) auto
    then show ?thesis
      using assms sl True ds by (simp add: append_interval_def Let_def)
  next
    case False
    then have pos: "0 < ?c" using c0 by simp
    have sl2: "slice_from ?ms ?c = Inr (drop (nat ?c) ?ms)"
      using c0 c1 by (simp add: slice_from_def)
    let ?ms1 = "copy_go ?ms (drop (nat ?c) ?ms)"
    have l1: "length ?ms1 = ?W" using c0 c1 by (simp add: copy_go_def min_def)
    have "decode_loop ?W 0 ?buf ?ms1 = Inr (take (nat 0) ?ms1 @ decode_stream ?buf @ drop (nat 0 + ?W) ?ms1)"
      using lb l1 by (intro decode_loop_eq) auto
    then have "decode_loop ?W 0 ?buf ?ms1 = Inr (decode_stream ?buf)"
      using l1 by simp
    then show ?thesis
      using assms sl sl2 pos ds by (simp add: append_interval_def Let_def)
  qed
qed


lemma lastn_append:
  "k \<le> length xs \<Longrightarrow> lastn (k + length ys) (xs @ ys) = lastn k xs @ ys"
  by (simp add: lastn_def)

lemma lastn_append_right:
  "k \<le> length ys \<Longrightarrow> lastn k (xs @ ys) = lastn k ys"
  by (simp add: lastn_def)

lemma drop_lastn:
  "k \<le> length xs \<Longrightarrow> drop j (lastn k xs) = lastn (k - j) xs"
  by (cases "j \<le> k") (simp_all add: lastn_def add.commute)

lemma append_interval_inv:
  assumes n: "0 \<le> n" and len: "length buf = 2 * nat n" and inv: "window_inv W w xs"
  shows "\<exists>w'. append_interval n buf w = Inr w' \<and> window_inv W w' (xs @ decode_stream buf)"
proof -
  let ?ms = "modelSamples w"
  let ?c = "min W (length xs)"
  let ?ds = "decode_stream buf"
  from inv have W: "length ?ms = W" and c: "modelSampleCount w = int ?c"
    and tk: "take ?c ?ms = lastn ?c xs"
    by (simp_all add: window_inv_def)
  have lds: "length ?ds = nat n" by (simp add: length_decode_stream len)
  have c0: "0 \<le> modelSampleCount w" "modelSampleCount w \<le> int (length ?ms)"
    using c W by simp_all
  have lxs: "length (xs @ ?ds) = length xs + nat n" by (simp add: lds)
  consider (small) "int ?c + n \<le> int W" | (shift) "n \<le> int W" "int ?c + n > int W"
    | (large) "n > int W" by linarith
  then show ?thesis
  proof cases
    case small
    define ms' where "ms' = take ?c ?ms @ ?ds @ drop (?c + nat n) ?ms"
    have e: "append_interval n buf w =
        Inr \<lparr>modelSamples = ms', modelSampleCount = int (?c + nat n)\<rparr>"
      using append_interval_small [OF n len c0(1)] small c W n by (simp add: ms'_def)
    have m: "min W (length (xs @ ?ds)) = ?c + nat n" unfolding lxs using small n by linarith
    have "take (?c + nat n) ms' = take ?c ?ms @ ?ds"
      using lds W by (simp add: ms'_def)
    also have "\<dots> = lastn (?c + length ?ds) (xs @ ?ds)"
      by (simp add: tk lastn_append)
    finally have t: "take (?c + nat n) ms' = lastn (?c + nat n) (xs @ ?ds)"
      by (simp only: lds)
    have l: "length ms' = W"
      using small n lds W by (simp add: ms'_def)
    show ?thesis
      unfolding window_inv_def m using e l t by simp
  next
    case shift
    define ms' where "ms' = drop (nat (int ?c + n) - W) (take ?c ?ms) @ ?ds"
    have e: "append_interval n buf w = Inr \<lparr>modelSamples = ms', modelSampleCount = int W\<rparr>"
      using append_interval_shift [OF n len c0] shift c W by (simp add: ms'_def)
    have m: "min W (length (xs @ ?ds)) = W" unfolding lxs using shift n by linarith
    have k: "?c - (nat (int ?c + n) - W) = W - nat n" using shift n by linarith
    have kl: "W - nat n \<le> length xs" using shift n by linarith
    have "ms' = lastn (W - nat n) xs @ ?ds"
      by (simp add: ms'_def tk drop_lastn k)
    also have "\<dots> = lastn (W - nat n + length ?ds) (xs @ ?ds)"
      using kl by (simp add: lastn_append)
    also have "W - nat n + length ?ds = W" using shift n lds by linarith
    finally have ms': "ms' = lastn W (xs @ ?ds)" .
    have l: "length ms' = W"
      unfolding ms' lastn_def using kl lds shift n by simp
    show ?thesis
      unfolding window_inv_def m using e l ms' by simp
  next
    case large
    define ms' where "ms' = drop (nat n - W) ?ds"
    have e: "append_interval n buf w = Inr \<lparr>modelSamples = ms', modelSampleCount = int W\<rparr>"
      using append_interval_large [OF n len c0] large W by (simp add: ms'_def)
    have m: "min W (length (xs @ ?ds)) = W" unfolding lxs using large n by linarith
    have "ms' = lastn W ?ds" by (simp add: ms'_def lastn_def lds)
    also have "\<dots> = lastn W (xs @ ?ds)"
      using large lds by (simp add: lastn_append_right)
    finally have ms': "ms' = lastn W (xs @ ?ds)" .
    have l: "length ms' = W"
      unfolding ms' lastn_def using lds large n by simp
    show ?thesis
      unfolding window_inv_def m using e l ms' by simp
  qed
qed

lemma append_intervals_inv:
  assumes "0 \<le> n" and "\<forall>buf \<in> set bufs. length buf = 2 * nat n" and "window_inv W w xs"
  shows "\<exists>w'. append_intervals n bufs w = Inr w' \<and>
           window_inv W w' (xs @ decode_stream (concat bufs))"
  using assms
proof (induction bufs arbitrary: w xs)
  case Nil
  then show ?case by simp
next
  case (Cons buf bufs)
  from Cons.prems have len: "length buf = 2 * nat n" by simp
  from append_interval_inv [OF Cons.prems(1) len Cons.prems(3)] obtain w1 where
    w1: "append_interval n buf w = Inr w1" "window_inv W w1 (xs @ decode_stream buf)"
    by blast
  from Cons.IH [OF Cons.prems(1) _ w1(2)] Cons.prems(2) obtain w' where
    "append_intervals n bufs w1 = Inr w'"
    "window_inv W w' ((xs @ decode_stream buf) @ decode_stream (concat bufs))"
    by auto
  moreover have "decode_stream (buf @ concat bufs) = decode_stream buf @ decode_stream (concat bufs)"
    using len by (simp add: decode_stream_append)
  ultimately show ?case using w1 by simp
qed


lemma worker_step_capture_fields:
  "worker_step cl s = Some s' \<Longrightarrow>
   win s' = win s \<and> audio s' = audio s \<and> capture s' = capture s \<and>
   interval_count s' = interval_count s"
  by (auto simp: worker_step_def split: worker_pc.splits if_splits prod.splits sum.splits)

lemma consumer_step_capture_fields:
  "consumer_step s = Some s' \<Longrightarrow>
   win s' = win s \<and> audio s' = audio s \<and> capture s' = capture s \<and>
   interval_count s' = interval_count s"
  by (auto simp: consumer_step_def split: list.splits)

lemma capture_step_reading:
  assumes "capture s = CapReading" "audio s = Interval buf # rest"
    "append_interval (interval_count s) buf (win s) = Inr w"
  shows "\<exists>s'. capture_step s = Some s' \<and> win s' = w \<and> audio s' = rest \<and>
           capture s' = CapReading \<and> interval_count s' = interval_count s"
  using assms by (simp add: capture_step_def)

lemma run_window_inv:
  assumes "0 \<le> interval_count s" "capture s = CapReading"
    "audio s = map Interval bufs @ later"
    "\<forall>buf \<in> set bufs. length buf = 2 * nat (interval_count s)"
    "window_inv W (win s) xs"
    "count_list sch Capture = length bufs"
  shows "window_inv W (win (run cl sch s)) (xs @ decode_stream (concat bufs))"
  using assms
proof (induction sch arbitrary: s bufs xs)
  case Nil
  then show ?case by simp
next
  case (Cons a sch)
  show ?case
  proof (cases a)
    case Capture
    with Cons.prems obtain buf bufs' where bufs: "bufs = buf # bufs'"
      by (cases bufs) auto
    have len: "length buf = 2 * nat (interval_count s)" using Cons.prems bufs by simp
    from append_interval_inv [OF Cons.prems(1) len Cons.prems(5)] obtain w1 where
      w1: "append_interval (interval_count s) buf (win s) = Inr w1"
        "window_inv W w1 (xs @ decode_stream buf)" by blast
    from capture_step_reading [OF Cons.prems(2) _ w1(1)] Cons.prems(3) bufs obtain s1 where
      s1: "capture_step s = Some s1" "win s1 = w1" "audio s1 = map Interval bufs' @ later"
        "capture s1 = CapReading" "interval_count s1 = interval_count s"
      by auto
    have "window_inv W (win (run cl sch s1)) ((xs @ decode_stream buf) @ decode_stream (concat bufs'))"
      using Cons.prems bufs s1 w1 Capture by (intro Cons.IH) auto
    moreover have "decode_stream (concat bufs) = decode_stream buf @ decode_stream (concat bufs')"
      using len bufs by (simp add: decode_stream_append)
    ultimately show ?thesis
      using s1 Capture by (simp add: step_def)
  next
    case Worker
    show ?thesis
    proof (cases "worker_step cl s")
      case None
      then show ?thesis using Cons Worker by (simp add: step_def)
    next
      case (Some s1)
      from worker_step_capture_fields [OF Some] have
        "win s1 = win s" "audio s1 = audio s" "capture s1 = capture s"
        "interval_count s1 = interval_count s" by simp_all
      then have "window_inv W (win (run cl sch s1)) (xs @ decode_stream (concat bufs))"
        using Cons.prems Worker by (intro Cons.IH) auto
      then show ?thesis using Some Worker by (simp add: step_def)
    qed
  next
    case Consumer
    show ?thesis
    proof (cases "consumer_step s")
      case None
      then show ?thesis using Cons Consumer by (simp add: step_def)
    next
      case (Some s1)
      from consumer_step_capture_fields [OF Some] have
        "win s1 = win s" "audio s1 = audio s" "capture s1 = capture s"
        "interval_count s1 = interval_count s" by simp_all
      then have "window_inv W (win (run cl sch s1)) (xs @ decode_stream (concat bufs))"
        using Cons.prems Consumer by (intro Cons.IH) auto
      then show ?thesis using Some Consumer by (simp add: step_def)
    qed
  qed
qed

lemma length_decode_concat:
  "\<forall>buf \<in> set bufs. length buf = 2 * k \<Longrightarrow>
   length (decode_stream (concat bufs)) = length bufs * k"
proof (induction bufs)
  case Nil
  then show ?case by simp
next
  case (Cons buf bufs)
  then have "decode_stream (concat (buf # bufs)) = decode_stream buf @ decode_stream (concat bufs)"
    by (simp add: decode_stream_append)
  with Cons show ?case by (simp add: length_decode_stream)
qed

text \<open>
  C5. Start an audio classifier and let its capture activity read \<open>K\<close> full interval
  buffers, in any schedule of the activities. If \<open>K\<close> intervals hold at least
  \<^verbatim>\<open>InputFeaturesCount\<close> samples, the window is then full and holds exactly the last
  \<^verbatim>\<open>InputFeaturesCount\<close> samples of the decoded stream, oldest first. Nothing is assumed
  about how the interval length compares with the window length.
\<close>

theorem sliding_window_holds_latest_samples:
  assumes new: "audio_NewClassifier mp r rec n = (Inr s0, rec')"
    and script: "audio_script rec = map Interval bufs @ later"
    and full: "\<forall>buf \<in> set bufs. length buf = 2 * nat n"
    and K: "count_list sch Capture = length bufs"
    and enough: "InputFeaturesCount mp \<le> int (length bufs) * n"
  shows "win (run classify sch s0) =
     \<lparr>modelSamples = lastn (nat (InputFeaturesCount mp)) (decode_stream (concat bufs)),
      modelSampleCount = InputFeaturesCount mp\<rparr>"
proof -
  let ?W = "nat (InputFeaturesCount mp)"
  from new have n: "0 \<le> n" and F: "0 \<le> InputFeaturesCount mp"
    and s0: "interval_count s0 = n" "capture s0 = CapReading" "audio s0 = audio_script rec"
      "win s0 = \<lparr>modelSamples = replicate ?W 0, modelSampleCount = 0\<rparr>"
    by (auto simp: audio_NewClassifier_def split: if_splits)
  have inv0: "window_inv ?W (win s0) []"
    by (simp add: s0 window_inv_def lastn_def)
  have "window_inv ?W (win (run classify sch s0)) ([] @ decode_stream (concat bufs))"
    using n s0 script full K inv0 by (intro run_window_inv) auto
  moreover have "length (decode_stream (concat bufs)) = length bufs * nat n"
    using full by (rule length_decode_concat)
  moreover have "?W \<le> length bufs * nat n"
  proof -
    have "int ?W \<le> int (length bufs * nat n)" using enough n F by simp
    then show ?thesis by linarith
  qed
  ultimately have "length (modelSamples (win (run classify sch s0))) = ?W"
    "modelSampleCount (win (run classify sch s0)) = int ?W"
    "take ?W (modelSamples (win (run classify sch s0))) = lastn ?W (decode_stream (concat bufs))"
    by (simp_all add: window_inv_def min_def)
  then show ?thesis using F by (cases "win (run classify sch s0)") simp
qed

theorem sliding_window_holds_latest_samples_witness:
  "\<exists>s0 rec'.
     audio_NewClassifier (mic_params 3) ([] :: (error + RunnerClassifyResponse) list)
       \<lparr>reader_calls = 0, audio_script = [Interval [1, 0, 2, 0], Interval [3, 0, 255, 255]]\<rparr> 2
       = (Inr s0, rec') \<and>
     win (run stub_classify [Capture, Worker, Capture] s0) =
       \<lparr>modelSamples = [2, 3, - 1], modelSampleCount = 3\<rparr>"
proof -
  let ?rec = "\<lparr>reader_calls = 0,
                audio_script = [Interval [1, 0, 2, 0], Interval [3, 0, 255, 255]]\<rparr>"
  have "\<exists>s0 rec'. audio_NewClassifier (mic_params 3) ([] :: (error + RunnerClassifyResponse) list) ?rec 2 = (Inr s0, rec')"
    by (simp add: audio_NewClassifier_def mic_params_def emptyModelParameters_def)
  then obtain s0 rec' where
    new: "audio_NewClassifier (mic_params 3) ([] :: (error + RunnerClassifyResponse) list) ?rec 2 = (Inr s0, rec')" by blast
  have "win (run stub_classify [Capture, Worker, Capture] s0) =
     \<lparr>modelSamples = lastn (nat (InputFeaturesCount (mic_params 3)))
                       (decode_stream (concat [[1, 0, 2, 0], [3, 0, 255, 255]])),
      modelSampleCount = InputFeaturesCount (mic_params 3)\<rparr>"
    by (rule sliding_window_holds_latest_samples [OF new, where later = "[]"])
       (simp_all add: mic_params_def)
  then have "win (run stub_classify [Capture, Worker, Capture] s0) =
       \<lparr>modelSamples = [2, 3, - 1], modelSampleCount = 3\<rparr>"
    by (simp add: mic_params_def lastn_def float64_of_int16_def le_int16_def)
  with new show ?thesis by blast
qed

subsection \<open>The features of an image\<close>
















lemmas image_defs =
  test_image_lib_def camera_params_def emptyModelParameters_def normalize_def Size_def
  inside_def Let_def



lemma gray_test_image_normal:
  "normalize test_image_lib (camera_params 1 1 1) gray_test_image = gray_test_image"
  by (simp add: image_defs gray_test_image_def)

lemma gray_test_image_features:
  "image_features test_image_lib (camera_params 1 1 1) gray_test_image = Inr [460551]"
proof -
  have a: "At gray_test_image 0 0 = GrayColor 7" by (simp add: inside_def gray_test_image_def)
  have p: "pixel_feature (GrayColor 7) = 460551"
    by (simp add: pixel_feature_def pixel_value_def widen_def)
  have st: "store [0 :: real] 0 460551 = Inr [460551]" by (simp add: store_def)
  show ?thesis
    unfolding image_features_def gray_test_image_normal
    by (simp add: pack_features_def camera_params_def a p st del: At.simps)
qed


subsection \<open>The channels of the audio classifier\<close>

lemma capture_step_channels:
  "capture_step s = Some s' \<Longrightarrow> channels_inv s \<Longrightarrow> channels_inv s'"
  by (auto simp: capture_step_def channels_inv_def
      split: capture_pc.splits list.splits audio_read.splits sum.splits if_splits)

lemma worker_step_channels:
  "worker_step cl s = Some s' \<Longrightarrow> channels_inv s \<Longrightarrow> channels_inv s'"
  by (auto simp: worker_step_def channels_inv_def
      split: worker_pc.splits if_splits prod.splits sum.splits)

lemma consumer_step_channels:
  "consumer_step s = Some s' \<Longrightarrow> channels_inv s \<Longrightarrow> channels_inv s'"
  by (auto simp: consumer_step_def channels_inv_def split: list.splits)

lemma step_channels:
  "step cl a s = Some s' \<Longrightarrow> channels_inv s \<Longrightarrow> channels_inv s'"
  by (cases a) (auto simp: step_def dest: capture_step_channels worker_step_channels
      consumer_step_channels)

lemma run_channels: "channels_inv s \<Longrightarrow> channels_inv (run cl sch s)"
proof (induction sch arbitrary: s)
  case Nil
  then show ?case by simp
next
  case (Cons a sch)
  then show ?case
    by (cases "step cl a s") (auto dest: step_channels)
qed

lemma NewClassifier_channels:
  "audio_NewClassifier mp r rec n = (Inr s0, rec') \<Longrightarrow> channels_inv s0"
  by (auto simp: audio_NewClassifier_def channels_inv_def split: if_splits)

text \<open>
  Under every schedule of the activities of a started audio classifier the channel
  \<^verbatim>\<open>Events\<close> stays open, so that a consumer receiving from it never sees the end of the
  stream; and once the capture activity has stopped, the channel \<^verbatim>\<open>samples\<close> is closed
  and a classify activity waiting in its receive returns.
\<close>

lemma Events_never_closed:
  assumes "audio_NewClassifier mp r rec n = (Inr s0, rec')"
  shows "\<not> Events_closed (run classify sch s0) \<and>
         consumer_receive (run classify sch s0) \<noteq> EndOfStream \<and>
         (capture (run classify sch s0) = CapStopped \<longrightarrow>
            samples_closed (run classify sch s0) \<and>
            (worker (run classify sch s0) = WReceive \<longrightarrow>
               worker_step classify (run classify sch s0)
                 = Some ((run classify sch s0)\<lparr>worker := WStopped\<rparr>)))"
proof -
  have "channels_inv (run classify sch s0)"
    using assms by (intro run_channels NewClassifier_channels)
  then show ?thesis
    by (auto simp: channels_inv_def consumer_receive_def worker_step_def split: list.splits)
qed

lemma new_read_error_classifier:
  "audio_NewClassifier (mic_params 1) [] \<lparr>reader_calls = 0, audio_script = [AudioFail]\<rparr> 1
     = (Inr read_error_classifier, \<lparr>reader_calls = 1, audio_script = [AudioFail]\<rparr>)"
  by (simp add: audio_NewClassifier_def mic_params_def emptyModelParameters_def
      read_error_classifier_def)

lemmas audio_eval =
  step_def capture_step_def worker_step_def consumer_step_def consumer_receive_def
  read_error_classifier_def

text \<open>
  C3. The code at the failing input: the recorder's first read fails. The capture
  activity sends the error event, closes \<^verbatim>\<open>samples\<close> and returns; the classify activity
  sees \<^verbatim>\<open>samples\<close> closed and returns; the consumer receives the error event. Both
  activities have stopped, and \<^verbatim>\<open>Events\<close> is still open and empty: the consumer's next
  receive blocks, and no activity is left that could ever move.
\<close>

theorem Events_stays_open_after_read_error:
  "audio_NewClassifier (mic_params 1) [] \<lparr>reader_calls = 0, audio_script = [AudioFail]\<rparr> 1
     = (Inr read_error_classifier, \<lparr>reader_calls = 1, audio_script = [AudioFail]\<rparr>) \<and>
   capture after_read_error = CapStopped \<and> worker after_read_error = WStopped \<and>
   samples_closed after_read_error \<and>
   delivered after_read_error = [ErrEvent ReadingAudio] \<and>
   \<not> Events_closed after_read_error \<and> consumer_receive after_read_error = Blocked \<and>
   step stub_classify Capture after_read_error = None \<and>
   step stub_classify Worker after_read_error = None \<and>
   step stub_classify Consumer after_read_error = None"
  using new_read_error_classifier by (simp add: audio_eval after_read_error_def)

subsection \<open>An error of Classify in the two pipelines\<close>

lemma worker_stopped_step:
  "step cl a s = Some s' \<Longrightarrow> worker s = WStopped \<Longrightarrow>
   worker s' = WStopped \<and> runner s' = runner s"
  by (cases a)
     (auto simp: step_def capture_step_def worker_step_def consumer_step_def
       split: capture_pc.splits list.splits audio_read.splits sum.splits if_splits)

lemma worker_stopped_forever:
  "worker s = WStopped \<Longrightarrow>
   worker (run cl sch s) = WStopped \<and> runner (run cl sch s) = runner s"
proof (induction sch arbitrary: s)
  case Nil
  then show ?case by simp
next
  case (Cons a sch)
  show ?case
  proof (cases "step cl a s")
    case None
    then show ?thesis using Cons by simp
  next
    case (Some s')
    from worker_stopped_step [OF Some Cons.prems] Cons.IH [of s'] Some
    show ?thesis by simp
  qed
qed

lemma worker_returns_after_error:
  "worker s = WSendErr e \<Longrightarrow> Events s = [] \<Longrightarrow>
   worker_step cl s = Some (s\<lparr>Events := [ErrEvent e], worker := WStopped\<rparr>)"
  by (simp add: worker_step_def)

lemma new_failing_classifier:
  "audio_NewClassifier (mic_params 1) failing_runner
     \<lparr>reader_calls = 0, audio_script = [Interval [1, 0], Interval [2, 0], Interval [3, 0]]\<rparr> 1
     = (Inr failing_classifier,
        \<lparr>reader_calls = 1, audio_script = [Interval [1, 0], Interval [2, 0], Interval [3, 0]]\<rparr>)"
  by (simp add: audio_NewClassifier_def mic_params_def emptyModelParameters_def
      failing_classifier_def)

lemma append_one_sample:
  "c = 0 \<or> c = 1 \<Longrightarrow>
   append_interval 1 [lo, hi] \<lparr>modelSamples = [v], modelSampleCount = c\<rparr> =
     Inr \<lparr>modelSamples = [float64_of_int16 (le_int16 lo hi)], modelSampleCount = 1\<rparr>"
  by (auto simp: append_interval_def Let_def slice_from_def copy_go_def store_def)

lemma run_failing: 
  "delivered (run stub_classify fair_schedule failing_classifier) = [ErrEvent (Classifying ''boom'')] \<and>
   Events (run stub_classify fair_schedule failing_classifier) = [] \<and>
   worker (run stub_classify fair_schedule failing_classifier) = WStopped \<and>
   capture (run stub_classify fair_schedule failing_classifier) = CapReading \<and>
   audio (run stub_classify fair_schedule failing_classifier) = [] \<and>
   runner (run stub_classify fair_schedule failing_classifier)
     = [Inr (test_response ok_status), Inr (test_response ok_status)]"
  by (simp add: fair_schedule_def failing_classifier_def failing_runner_def step_def
      capture_step_def worker_step_def consumer_step_def stub_classify_def append_one_sample)

lemma loop_failing:
  "fst (image_loop test_image_lib stub_classify (camera_params 1 1 1)
          [Received (Inr gray_test_image), Received (Inr gray_test_image),
           Received (Inr gray_test_image)] failing_runner)
     = [ErrEvent (Classifying ''boom''), OkEvent (test_response ok_status) gray_test_image,
        OkEvent (test_response ok_status) gray_test_image]"
  by (simp add: gray_test_image_features failing_runner_def stub_classify_def)

text \<open>
  C2. The code at the failing input: the runner's first \<^verbatim>\<open>Classify\<close> fails, the next two
  would succeed. The audio classifier sends the error event and its classify activity
  returns: the two later windows are never classified, the runner is not called again
  and no further event arrives, while the capture activity reads on. The image
  classifier, on three images with the same runner, sends the error event and then the
  two results.
\<close>

theorem audio_worker_stops_after_Classify_error:
  "audio_NewClassifier (mic_params 1) failing_runner
     \<lparr>reader_calls = 0, audio_script = [Interval [1, 0], Interval [2, 0], Interval [3, 0]]\<rparr> 1
     = (Inr failing_classifier,
        \<lparr>reader_calls = 1, audio_script = [Interval [1, 0], Interval [2, 0], Interval [3, 0]]\<rparr>) \<and>
   delivered (run stub_classify fair_schedule failing_classifier) = [ErrEvent (Classifying ''boom'')] \<and>
   Events (run stub_classify fair_schedule failing_classifier) = [] \<and>
   worker (run stub_classify fair_schedule failing_classifier) = WStopped \<and>
   capture (run stub_classify fair_schedule failing_classifier) = CapReading \<and>
   audio (run stub_classify fair_schedule failing_classifier) = [] \<and>
   runner (run stub_classify fair_schedule failing_classifier)
     = [Inr (test_response ok_status), Inr (test_response ok_status)] \<and>
   fst (image_loop test_image_lib stub_classify (camera_params 1 1 1)
          [Received (Inr gray_test_image), Received (Inr gray_test_image),
           Received (Inr gray_test_image)] failing_runner)
     = [ErrEvent (Classifying ''boom''), OkEvent (test_response ok_status) gray_test_image,
        OkEvent (test_response ok_status) gray_test_image]"
  using new_failing_classifier run_failing loop_failing by simp


section \<open>Concurrent callers: one transaction at a time\<close>

lemma in_blocks_snoc:
  "in_blocks xs \<Longrightarrow> i \<notin> set xs \<or> last xs = i \<Longrightarrow> in_blocks (xs @ [i])"
proof (induction xs rule: in_blocks.induct)
  case 1
  then show ?case by simp
next
  case (2 x)
  then show ?case by auto
next
  case (3 x y zs)
  from "3.prems" have tl: "in_blocks (y # zs)" and hd: "x = y \<or> x \<notin> set (y # zs)" by simp_all
  from "3.prems"(2) have c: "i \<notin> set (y # zs) \<or> last (y # zs) = i" by auto
  from "3.IH" [OF tl c] have ih: "in_blocks (y # zs @ [i])" by simp
  have "x = y \<or> x \<notin> set (y # zs @ [i])"
  proof (cases "x = y")
    case True
    then show ?thesis by simp
  next
    case False
    with hd have nx: "x \<notin> set (y # zs)" by simp
    have "x \<noteq> i"
    proof
      assume "x = i"
      with "3.prems"(2) have "last (y # zs) = x" by auto
      then have "x \<in> set (y # zs)" by (metis last_in_set list.distinct(1))
      with nx show False by contradiction
    qed
    with nx show ?thesis by simp
  qed
  with ih show ?case by simp
qed

lemma serial_inv_proc [simp]: "serial_inv (st\<lparr>proc := p\<rparr>) = serial_inv st"
  by (simp add: serial_inv_def)

lemma inv_move:
  assumes "serial_inv st" "in_flight (calls st i)" "in_flight c"
  shows "serial_inv (st\<lparr>calls := (calls st)(i := c)\<rparr>)"
  using assms unfolding serial_inv_def
  by (auto split: if_splits)

lemma inv_move_wire:
  assumes inv: "serial_inv st" and fl: "in_flight (calls st i)" and c: "in_flight c"
  shows "serial_inv (st\<lparr>calls := (calls st)(i := c), proc := p, wire := wire st @ [(i, op)]\<rparr>)"
proof -
  let ?own = "map fst (wire st)"
  from inv fl have only: "\<And>j. in_flight (calls st j) \<Longrightarrow> j = i"
    and blocks: "in_blocks ?own"
    and fresh: "\<And>j d. calls st j = Start d \<Longrightarrow> j \<notin> set ?own"
    and lst: "i \<in> set ?own \<Longrightarrow> last ?own = i"
    and mu: "mutex st"
    unfolding serial_inv_def by blast+
  have b: "in_blocks (?own @ [i])"
    using blocks lst by (intro in_blocks_snoc) blast+
  have ni: "\<And>d. calls st i \<noteq> Start d" using fl by auto
  show ?thesis
    unfolding serial_inv_def
    using b only fresh mu c ni by (auto split: if_splits)
qed

lemma inv_acquire:
  assumes inv: "serial_inv st" and s: "calls st i = Start d" and free: "\<not> mutex st"
    and c: "in_flight c"
  shows "serial_inv (st\<lparr>calls := (calls st)(i := c), mutex := True\<rparr>)"
proof -
  let ?own = "map fst (wire st)"
  from inv free have none: "\<And>j. \<not> in_flight (calls st j)"
    and blocks: "in_blocks ?own"
    and fresh: "\<And>j d. calls st j = Start d \<Longrightarrow> j \<notin> set ?own"
    unfolding serial_inv_def by blast+
  from fresh have fresh': "\<And>j d b. calls st j = Start d \<Longrightarrow> (j, b) \<notin> set (wire st)"
    by force
  show ?thesis
    unfolding serial_inv_def
    using none blocks fresh' fresh' [OF s] c by (auto split: if_splits)
qed

lemma inv_release:
  assumes inv: "serial_inv st" and fl: "in_flight (calls st i)"
  shows "serial_inv (st\<lparr>calls := (calls st)(i := Returned res), mutex := False\<rparr>)"
proof -
  let ?own = "map fst (wire st)"
  from inv fl have only: "\<And>j. in_flight (calls st j) \<Longrightarrow> j = i"
    and blocks: "in_blocks ?own"
    and fresh: "\<And>j d. calls st j = Start d \<Longrightarrow> j \<notin> set ?own"
    unfolding serial_inv_def by blast+
  show ?thesis
    unfolding serial_inv_def
    using only blocks fresh by (auto split: if_splits)
qed

lemma call_step_inv:
  assumes inv: "serial_inv st" and step: "call_step js i st = Some st'"
  shows "serial_inv st'"
proof (cases "calls st i")
  case (Start d)
  with step inv show ?thesis
    by (auto simp: call_step_def Let_def split: if_splits intro!: inv_acquire)
next
  case (HasLock d)
  with step inv show ?thesis
    by (auto simp: call_step_def Let_def split: prod.splits intro!: inv_move)
next
  case (Writing rq)
  then have fl: "in_flight (calls st i)" by simp
  from step Writing show ?thesis
    by (auto simp: call_step_def Let_def split: option.splits prod.splits sum.splits
        intro!: inv_move [OF inv fl] inv_move_wire [OF inv fl])
next
  case (Decoding buf)
  then have fl: "in_flight (calls st i)" by simp
  from step Decoding show ?thesis
    by (auto simp: call_step_def Let_def
        split: option.splits prod.splits sum.splits scan_result.splits
        intro!: inv_move [OF inv fl] inv_move_wire [OF inv fl])
next
  case (Draining resp buffered)
  then have fl: "in_flight (calls st i)" by simp
  from step Draining show ?thesis
    by (auto simp: call_step_def Let_def split: option.splits if_splits
        intro!: inv_move [OF inv fl] inv_move_wire [OF inv fl])
next
  case (Unlocking res)
  then have fl: "in_flight (calls st i)" by simp
  from step Unlocking show ?thesis
    by (auto simp: call_step_def Let_def intro!: inv_release [OF inv fl])
next
  case (Returned res)
  with step show ?thesis by (simp add: call_step_def)
qed

lemma run_calls_inv: "serial_inv st \<Longrightarrow> serial_inv (run_calls js sch st)"
proof (induction sch arbitrary: st)
  case Nil
  then show ?case by simp
next
  case (Cons i sch)
  then show ?case
    by (cases "call_step js i st") (auto dest: call_step_inv)
qed

lemma run_calls_replicate_Suc:
  "run_calls js (replicate (Suc n) i) st =
     (case call_step js i st of None \<Rightarrow> run_calls js (replicate n i) st
      | Some st' \<Rightarrow> run_calls js (replicate n i) st')"
  by simp

lemma returned_stuck: "calls st i = Returned res \<Longrightarrow> call_step js i st = None"
  by (simp add: call_step_def)

lemma run_calls_returned:
  "calls st i = Returned res \<Longrightarrow> run_calls js (replicate n i) st = st"
  by (induction n) (simp_all add: returned_stuck)

lemma completes_returned:
  "calls st i = Returned res \<Longrightarrow> \<not> mutex st \<Longrightarrow> completes js i st res (proc st)"
  unfolding completes_def by (simp add: run_calls_returned)

lemma completes_returned_eq:
  assumes "calls st i = Returned res0" "completes js i st res r"
  shows "res = res0 \<and> r = proc st"
proof -
  from assms(2) obtain n0 where
    "calls (run_calls js (replicate n0 i) st) i = Returned res \<and>
     proc (run_calls js (replicate n0 i) st) = r"
    unfolding completes_def by blast
  with assms(1) show ?thesis by (simp add: run_calls_returned)
qed

lemma completes_step_back:
  assumes "call_step js i st = Some st'" "completes js i st' res r"
  shows "completes js i st res r"
proof -
  from assms(2) obtain n0 where n0: "\<forall>n\<ge>n0. calls (run_calls js (replicate n i) st') i = Returned res \<and>
      proc (run_calls js (replicate n i) st') = r \<and> \<not> mutex (run_calls js (replicate n i) st')"
    unfolding completes_def by blast
  have "calls (run_calls js (replicate n i) st) i = Returned res \<and>
      proc (run_calls js (replicate n i) st) = r \<and> \<not> mutex (run_calls js (replicate n i) st)"
    if "n \<ge> Suc n0" for n
  proof -
    from that obtain m where m: "n = Suc m" "m \<ge> n0" by (cases n) auto
    then show ?thesis using n0 assms(1) by simp
  qed
  then show ?thesis unfolding completes_def by blast
qed

lemma completes_step_fwd:
  assumes "call_step js i st = Some st'" "completes js i st res r"
  shows "completes js i st' res r"
proof -
  from assms(2) obtain n0 where n0: "\<forall>n\<ge>n0. calls (run_calls js (replicate n i) st) i = Returned res \<and>
      proc (run_calls js (replicate n i) st) = r \<and> \<not> mutex (run_calls js (replicate n i) st)"
    unfolding completes_def by blast
  have "calls (run_calls js (replicate n i) st') i = Returned res \<and>
      proc (run_calls js (replicate n i) st') = r \<and> \<not> mutex (run_calls js (replicate n i) st')"
    if "n \<ge> n0" for n
  proof -
    have "run_calls js (replicate n i) st' = run_calls js (replicate (Suc n) i) st"
      using assms(1) by simp
    then show ?thesis using n0 that by (metis le_Suc_eq)
  qed
  then show ?thesis unfolding completes_def by blast
qed

lemma completes_unlocking:
  assumes "calls st i = Unlocking res"
  shows "completes js i st res (proc st)"
proof -
  let ?st' = "st\<lparr>calls := (calls st)(i := Returned res), mutex := False\<rparr>"
  have s: "call_step js i st = Some ?st'" using assms by (simp add: call_step_def)
  have "completes js i ?st' res (proc ?st')" by (rule completes_returned) simp_all
  then have "completes js i ?st' res (proc st)" by simp
  with s show ?thesis by (rule completes_step_back)
qed

lemma conn_same: "conn r = Some c \<Longrightarrow> r\<lparr>conn := Some c\<rparr> = r"
  by (cases r) simp

lemma completes_draining:
  assumes pc: "calls st i = Draining resp rest" and c: "conn (proc st) = Some c"
  shows "completes js i st
           (if \<not> Success (ClassifyStatus resp) then Inl (Classifying (Error (ClassifyStatus resp)))
            else Inr resp)
           ((proc st)\<lparr>conn := Some (if rest = [] then snd (conn_Read 1 c) else c)\<rparr>)"
proof -
  let ?res = "if \<not> Success (ClassifyStatus resp) then Inl (Classifying (Error (ClassifyStatus resp)))
            else Inr resp"
  obtain st' where s: "call_step js i st = Some st'" and pc': "calls st' i = Unlocking ?res"
    and p: "proc st' = (proc st)\<lparr>conn := Some (if rest = [] then snd (conn_Read 1 c) else c)\<rparr>"
    using pc c by (cases "rest = []") (auto simp: call_step_def Let_def conn_same)
  from completes_unlocking [OF pc', of js] p have "completes js i st' ?res
      ((proc st)\<lparr>conn := Some (if rest = [] then snd (conn_Read 1 c) else c)\<rparr>)" by simp
  with s show ?thesis by (rule completes_step_back)
qed



lemma completes_decoding:
  "calls st i = Decoding buf \<Longrightarrow> conn (proc st) = Some c \<Longrightarrow> inbound c = evs \<Longrightarrow>
   completes js i st (fst (after_write js buf c (proc st))) (snd (after_write js buf c (proc st)))"
proof (induction evs arbitrary: st buf c)
  case Nil
  show ?case
  proof (cases "scan js buf")
    case (Complete n)
    show ?thesis
    proof (cases "unmarshal_classify js (take n buf)")
      case None
      have s: "call_step js i st =
          Some (st\<lparr>calls := (calls st)(i := Unlocking (Inl (ReadingJSON UnmarshalError)))\<rparr>)"
        using Nil(1,2) Complete None by (simp add: call_step_def)
      have a: "after_write js buf c (proc st) = (Inl (ReadingJSON UnmarshalError), proc st)"
        using Nil(1,2) Complete None by (simp add: after_write_def conn_same)
      show ?thesis unfolding a
        using completes_step_back [OF s completes_unlocking] by simp
    next
      case (Some resp)
      have s: "call_step js i st =
          Some (st\<lparr>calls := (calls st)(i := Draining resp (drop n buf))\<rparr>)"
        using Nil(1,2) Complete Some by (simp add: call_step_def)
      have a: "after_write js buf c (proc st) =
          (if \<not> Success (ClassifyStatus resp) then Inl (Classifying (Error (ClassifyStatus resp)))
           else Inr resp,
           (proc st)\<lparr>conn := Some (if drop n buf = [] then snd (conn_Read 1 c) else c)\<rparr>)"
        using Nil(1,2) Complete Some by (simp add: after_write_def)
      show ?thesis unfolding a
        using completes_step_back [OF s completes_draining [where c = c]] Nil(1,2) by simp
    qed
  next
    case Incomplete
    obtain e c1 where rd: "conn_ReadChunk c = (Inl e, c1)"
      and c1: "c1 = c\<lparr>io_calls := Suc (io_calls c)\<rparr>"
      and e: "e = (if conn_closed c then UseOfClosedConn else DeadlineExceeded)"
      using Nil by (simp add: conn_ReadChunk_def Let_def)
    have s: "call_step js i st =
        Some (st\<lparr>calls := (calls st)(i := Unlocking (Inl (ReadingJSON (IOError e)))),
                 proc := (proc st)\<lparr>conn := Some c1\<rparr>, wire := wire st @ [(i, ReadOp)]\<rparr>)"
      using Nil Incomplete rd by (simp add: call_step_def)
    have a: "after_write js buf c (proc st) =
        (Inl (ReadingJSON (IOError e)), (proc st)\<lparr>conn := Some c1\<rparr>)"
      using Nil Incomplete c1 e by (simp add: after_write_def)
    show ?thesis unfolding a
      using completes_step_back [OF s completes_unlocking] by simp
  next
    case Invalid
    have s: "call_step js i st =
        Some (st\<lparr>calls := (calls st)(i := Unlocking (Inl (ReadingJSON SyntaxError)))\<rparr>)"
      using Nil(1,2) Invalid by (simp add: call_step_def)
    have a: "after_write js buf c (proc st) = (Inl (ReadingJSON SyntaxError), proc st)"
      using Nil(1,2) Invalid by (simp add: after_write_def conn_same)
    show ?thesis unfolding a
      using completes_step_back [OF s completes_unlocking] by simp
  qed
next
  case (Cons ev evs)
  show ?case
  proof (cases "scan js buf")
    case (Complete n)
    show ?thesis
    proof (cases "unmarshal_classify js (take n buf)")
      case None
      have s: "call_step js i st =
          Some (st\<lparr>calls := (calls st)(i := Unlocking (Inl (ReadingJSON UnmarshalError)))\<rparr>)"
        using Cons.prems(1,2) Complete None by (simp add: call_step_def)
      have a: "after_write js buf c (proc st) = (Inl (ReadingJSON UnmarshalError), proc st)"
        using Cons.prems(1,2) Complete None by (simp add: after_write_def conn_same)
      show ?thesis unfolding a
        using completes_step_back [OF s completes_unlocking] by simp
    next
      case (Some resp)
      have s: "call_step js i st =
          Some (st\<lparr>calls := (calls st)(i := Draining resp (drop n buf))\<rparr>)"
        using Cons.prems(1,2) Complete Some by (simp add: call_step_def)
      have a: "after_write js buf c (proc st) =
          (if \<not> Success (ClassifyStatus resp) then Inl (Classifying (Error (ClassifyStatus resp)))
           else Inr resp,
           (proc st)\<lparr>conn := Some (if drop n buf = [] then snd (conn_Read 1 c) else c)\<rparr>)"
        using Cons.prems(1,2) Complete Some by (simp add: after_write_def)
      show ?thesis unfolding a
        using completes_step_back [OF s completes_draining [where c = c]] Cons.prems(1,2) by simp
    qed
  next
    case Invalid
    have s: "call_step js i st =
        Some (st\<lparr>calls := (calls st)(i := Unlocking (Inl (ReadingJSON SyntaxError)))\<rparr>)"
      using Cons.prems(1,2) Invalid by (simp add: call_step_def)
    have a: "after_write js buf c (proc st) = (Inl (ReadingJSON SyntaxError), proc st)"
      using Cons.prems(1,2) Invalid by (simp add: after_write_def conn_same)
    show ?thesis unfolding a
      using completes_step_back [OF s completes_unlocking] by simp
  next
    case Incomplete
    show ?thesis
    proof (cases "conn_closed c")
      case True
      let ?c1 = "c\<lparr>io_calls := Suc (io_calls c)\<rparr>"
      have rd: "conn_ReadChunk c = (Inl UseOfClosedConn, ?c1)"
        using True by (simp add: conn_ReadChunk_def Let_def)
      have s: "call_step js i st =
          Some (st\<lparr>calls := (calls st)(i := Unlocking (Inl (ReadingJSON (IOError UseOfClosedConn)))),
                   proc := (proc st)\<lparr>conn := Some ?c1\<rparr>, wire := wire st @ [(i, ReadOp)]\<rparr>)"
        using Cons.prems Incomplete rd by (simp add: call_step_def)
      have a: "after_write js buf c (proc st) =
          (Inl (ReadingJSON (IOError UseOfClosedConn)), (proc st)\<lparr>conn := Some ?c1\<rparr>)"
        using Cons.prems Incomplete True by (simp add: after_write_def)
      show ?thesis unfolding a
        using completes_step_back [OF s completes_unlocking] by simp
    next
      case False
      show ?thesis
      proof (cases ev)
        case ReadFail
        let ?c1 = "c\<lparr>io_calls := Suc (io_calls c), inbound := evs\<rparr>"
        have rd: "conn_ReadChunk c = (Inl ReadFailed, ?c1)"
          using False Cons.prems ReadFail by (simp add: conn_ReadChunk_def Let_def)
        have s: "call_step js i st =
            Some (st\<lparr>calls := (calls st)(i := Unlocking (Inl (ReadingJSON (IOError ReadFailed)))),
                     proc := (proc st)\<lparr>conn := Some ?c1\<rparr>, wire := wire st @ [(i, ReadOp)]\<rparr>)"
          using Cons.prems Incomplete rd by (simp add: call_step_def)
        have a: "after_write js buf c (proc st) =
            (Inl (ReadingJSON (IOError ReadFailed)), (proc st)\<lparr>conn := Some ?c1\<rparr>)"
          using Cons.prems Incomplete False ReadFail by (simp add: after_write_def)
        show ?thesis unfolding a
          using completes_step_back [OF s completes_unlocking] by simp
      next
        case (Data ch)
        let ?c1 = "c\<lparr>io_calls := Suc (io_calls c), inbound := evs\<rparr>"
        let ?st' = "st\<lparr>calls := (calls st)(i := Decoding (buf @ ch)),
                     proc := (proc st)\<lparr>conn := Some ?c1\<rparr>, wire := wire st @ [(i, ReadOp)]\<rparr>"
        have rd: "conn_ReadChunk c = (Inr ch, ?c1)"
          using False Cons.prems Data by (simp add: conn_ReadChunk_def Let_def)
        have s: "call_step js i st = Some ?st'"
          using Cons.prems Incomplete rd by (simp add: call_step_def)
        have ih: "completes js i ?st' (fst (after_write js (buf @ ch) ?c1 (proc ?st')))
            (snd (after_write js (buf @ ch) ?c1 (proc ?st')))"
          by (rule Cons.IH) simp_all
        have rv: "readValue (scan js) False buf (Data ch # evs) (io_calls c)
            = readValue (scan js) False (buf @ ch) evs (Suc (io_calls c))"
          using Incomplete by simp
        have a: "after_write js (buf @ ch) ?c1 (proc ?st') = after_write js buf c (proc st)"
          using Cons.prems False Data
          by (simp add: after_write_def rv del: readValue.simps
              split: prod.splits sum.splits option.splits)
        from ih show ?thesis unfolding a by (rule completes_step_back [OF s])
      qed
    qed
  qed
qed


lemma transact_after_write:
  assumes "marshal js req = Some bs" "conn r = Some c" "conn_Write bs c = (Inr u, c1)"
  shows "transact js (unmarshal_classify js) ClassifyStatus req r
           = after_write js [] c1 (r\<lparr>conn := Some c1\<rparr>)"
  using assms
  by (simp add: transact_def Decode_def after_write_def Let_def del: readValue.simps
      split: prod.splits sum.splits option.splits)


lemma completes_writing:
  assumes pc: "calls st i = Writing rq"
  shows "completes js i st
           (fst (transact js (unmarshal_classify js) ClassifyStatus (ClassifyRequest rq) (proc st)))
           (snd (transact js (unmarshal_classify js) ClassifyStatus (ClassifyRequest rq) (proc st)))"
proof (cases "marshal js (ClassifyRequest rq)")
  case None
  have s: "call_step js i st =
      Some (st\<lparr>calls := (calls st)(i := Unlocking (Inl (WritingJSON None)))\<rparr>)"
    using pc None by (simp add: call_step_def)
  have t: "transact js (unmarshal_classify js) ClassifyStatus (ClassifyRequest rq) (proc st)
      = (Inl (WritingJSON None), proc st)"
    using None by (simp add: transact_def)
  show ?thesis unfolding t
    using completes_step_back [OF s completes_unlocking] by simp
next
  case (Some bs)
  show ?thesis
  proof (cases "conn (proc st)")
    case None
    have s: "call_step js i st =
        Some (st\<lparr>calls := (calls st)(i := Unlocking (Inl NilPointerPanic))\<rparr>)"
      using pc Some None by (simp add: call_step_def)
    have t: "transact js (unmarshal_classify js) ClassifyStatus (ClassifyRequest rq) (proc st)
        = (Inl NilPointerPanic, proc st)"
      using Some None by (simp add: transact_def)
    show ?thesis unfolding t
      using completes_step_back [OF s completes_unlocking] by simp
  next
    case c: (Some c)
    obtain wres c1 where w: "conn_Write bs c = (wres, c1)" by (cases "conn_Write bs c")
    show ?thesis
    proof (cases wres)
      case (Inl e)
      have s: "call_step js i st =
          Some (st\<lparr>calls := (calls st)(i := Unlocking (Inl (WritingJSON (Some e)))),
                   proc := (proc st)\<lparr>conn := Some c1\<rparr>, wire := wire st @ [(i, WriteOp bs)]\<rparr>)"
        using pc Some c w Inl by (simp add: call_step_def)
      have t: "transact js (unmarshal_classify js) ClassifyStatus (ClassifyRequest rq) (proc st)
          = (Inl (WritingJSON (Some e)), (proc st)\<lparr>conn := Some c1\<rparr>)"
        using Some c w Inl by (simp add: transact_def)
      show ?thesis unfolding t
        using completes_step_back [OF s completes_unlocking] by simp
    next
      case (Inr u)
      let ?st' = "st\<lparr>calls := (calls st)(i := Decoding []),
                   proc := (proc st)\<lparr>conn := Some c1\<rparr>, wire := wire st @ [(i, WriteOp bs)]\<rparr>"
      have s: "call_step js i st = Some ?st'"
        using pc Some c w Inr by (simp add: call_step_def)
      have t: "transact js (unmarshal_classify js) ClassifyStatus (ClassifyRequest rq) (proc st)
          = after_write js [] c1 (proc ?st')"
        using transact_after_write [OF Some c] w Inr by simp
      have "completes js i ?st' (fst (after_write js [] c1 (proc ?st')))
          (snd (after_write js [] c1 (proc ?st')))"
        by (rule completes_decoding [where evs = "inbound c1"]) simp_all
      then show ?thesis unfolding t by (rule completes_step_back [OF s])
    qed
  qed
qed

lemma completes_haslock:
  assumes pc: "calls st i = HasLock d"
  shows "completes js i st (fst (Classify js d (proc st))) (snd (Classify js d (proc st)))"
proof -
  let ?rq = "\<lparr>RequestID = lastID (proc st) + 1, Classify_data = d\<rparr>"
  let ?st' = "st\<lparr>calls := (calls st)(i := Writing ?rq),
               proc := (proc st)\<lparr>lastID := lastID (proc st) + 1\<rparr>\<rparr>"
  have s: "call_step js i st = Some ?st'"
    using pc by (simp add: call_step_def nextID_def)
  have c: "Classify js d (proc st) =
      transact js (unmarshal_classify js) ClassifyStatus (ClassifyRequest ?rq) (proc ?st')"
    by (simp add: Classify_def nextID_def)
  have "completes js i ?st'
      (fst (transact js (unmarshal_classify js) ClassifyStatus (ClassifyRequest ?rq) (proc ?st')))
      (snd (transact js (unmarshal_classify js) ClassifyStatus (ClassifyRequest ?rq) (proc ?st')))"
    by (rule completes_writing) simp
  then show ?thesis unfolding c by (rule completes_step_back [OF s])
qed

lemma completes_start:
  assumes pc: "calls st i = Start d" and free: "\<not> mutex st"
  shows "completes js i st (fst (Classify js d (proc st))) (snd (Classify js d (proc st)))"
proof -
  let ?st' = "st\<lparr>calls := (calls st)(i := HasLock d), mutex := True\<rparr>"
  have s: "call_step js i st = Some ?st'"
    using pc free by (simp add: call_step_def)
  have "completes js i ?st' (fst (Classify js d (proc ?st'))) (snd (Classify js d (proc ?st')))"
    by (rule completes_haslock) simp
  then have "completes js i ?st' (fst (Classify js d (proc st))) (snd (Classify js d (proc st)))"
    by simp
  then show ?thesis by (rule completes_step_back [OF s])
qed


lemma serial_snoc:
  "serial js d (order @ [i]) r =
     (fst (serial js d order r) @ [(i, fst (Classify js (d i) (snd (serial js d order r))))],
      snd (Classify js (d i) (snd (serial js d order r))))"
  by (induction order arbitrary: r) (auto split: prod.splits)

lemma map_fst_serial: "map fst (fst (serial js d order r)) = order"
proof (induction order arbitrary: r)
  case Nil
  then show ?case by simp
next
  case (Cons i order)
  obtain res r1 where c: "Classify js (d i) r = (res, r1)" by (cases "Classify js (d i) r")
  obtain out r2 where s: "serial js d order r1 = (out, r2)" by (cases "serial js d order r1")
  from Cons [of r1] s have "map fst out = order" by simp
  then show ?case using c s by simp
qed

lemma serial_owner: "(i, res) \<in> set (fst (serial js d order r)) \<Longrightarrow> i \<in> set order"
  using map_fst_serial [of js d order r] by (metis fst_conv image_eqI set_map)

lemma call_step_others:
  "call_step js i st = Some st' \<Longrightarrow> j \<noteq> i \<Longrightarrow> calls st' j = calls st j"
  by (auto simp: call_step_def Let_def
      split: call.splits if_splits prod.splits option.splits sum.splits scan_result.splits)

lemma call_step_stays_in_flight:
  "call_step js i st = Some st' \<Longrightarrow> in_flight (calls st i) \<Longrightarrow>
   \<forall>res. calls st i \<noteq> Unlocking res \<Longrightarrow> in_flight (calls st' i)"
  by (auto simp: call_step_def Let_def
      split: call.splits if_splits prod.splits option.splits sum.splits scan_result.splits)

lemma call_step_unlocking:
  "call_step js i st = Some st' \<Longrightarrow> calls st i = Unlocking res \<Longrightarrow>
   calls st' i = Returned res \<and> proc st' = proc st"
  by (auto simp: call_step_def)

lemma call_step_start:
  "call_step js i st = Some st' \<Longrightarrow> calls st i = Start dd \<Longrightarrow>
   \<not> mutex st \<and> in_flight (calls st' i)"
  by (auto simp: call_step_def split: if_splits)

lemma call_step_linear:
  assumes sinv: "serial_inv st" and lin: "linear_inv js d r0 st"
    and step: "call_step js i st = Some st'"
  shows "linear_inv js d r0 st'"
proof -
  from lin obtain order where
    dist: "distinct order"
    and fin: "\<And>j res. (j, res) \<in> set (fst (serial js d order r0)) \<Longrightarrow> calls st j = Returned res"
    and rest: "\<And>j. j \<notin> set order \<Longrightarrow>
           calls st j = Start (d j) \<or>
           in_flight (calls st j) \<and>
           completes js j st (fst (Classify js (d j) (snd (serial js d order r0))))
                             (snd (Classify js (d j) (snd (serial js d order r0))))"
    and quiet: "(\<forall>j. \<not> in_flight (calls st j)) \<Longrightarrow> proc st = snd (serial js d order r0)"
    unfolding linear_inv_def by blast
  let ?r1 = "snd (serial js d order r0)"
  from sinv have only: "\<And>a b. in_flight (calls st a) \<Longrightarrow> in_flight (calls st b) \<Longrightarrow> a = b"
    and held: "mutex st \<longleftrightarrow> (\<exists>j. in_flight (calls st j))"
    unfolding serial_inv_def by blast+
  have others: "\<And>j. j \<noteq> i \<Longrightarrow> calls st' j = calls st j"
    using step by (rule call_step_others)
  have in_order: "\<And>j. j \<in> set order \<Longrightarrow> \<exists>res. calls st j = Returned res"
  proof -
    fix j assume "j \<in> set order"
    then have "j \<in> set (map fst (fst (serial js d order r0)))" by (simp add: map_fst_serial)
    then obtain res where "(j, res) \<in> set (fst (serial js d order r0))" by auto
    then show "\<exists>res. calls st j = Returned res" using fin by blast
  qed
  have not_returned: "\<forall>res. calls st i \<noteq> Returned res"
    using step by (auto simp: returned_stuck)
  then have i_new: "i \<notin> set order" using in_order by blast
  show ?thesis
  proof (cases "in_flight (calls st i)")
    case False
    with not_returned obtain dd where st_i: "calls st i = Start dd" by (cases "calls st i") auto
    with rest [OF i_new] have dd: "calls st i = Start (d i)" by auto
    from call_step_start [OF step st_i] have free: "\<not> mutex st" and fl': "in_flight (calls st' i)"
      by simp_all
    from free held have nobody: "\<And>j. \<not> in_flight (calls st j)" by blast
    then have p: "proc st = ?r1" using quiet by blast
    from completes_start [OF dd free, of js] p
    have "completes js i st (fst (Classify js (d i) ?r1)) (snd (Classify js (d i) ?r1))" by simp
    then have c': "completes js i st' (fst (Classify js (d i) ?r1)) (snd (Classify js (d i) ?r1))"
      by (rule completes_step_fwd [OF step])
    have a: "\<And>j res. (j, res) \<in> set (fst (serial js d order r0)) \<Longrightarrow> calls st' j = Returned res"
      using fin others i_new serial_owner by metis
    have b: "\<And>j. j \<notin> set order \<Longrightarrow>
           calls st' j = Start (d j) \<or>
           in_flight (calls st' j) \<and>
           completes js j st' (fst (Classify js (d j) ?r1)) (snd (Classify js (d j) ?r1))"
    proof -
      fix j assume j: "j \<notin> set order"
      show "calls st' j = Start (d j) \<or>
           in_flight (calls st' j) \<and>
           completes js j st' (fst (Classify js (d j) ?r1)) (snd (Classify js (d j) ?r1))"
      proof (cases "j = i")
        case True
        then show ?thesis using fl' c' by simp
      next
        case False
        then show ?thesis using rest [OF j] nobody others by auto
      qed
    qed
    have c: "(\<forall>j. \<not> in_flight (calls st' j)) \<Longrightarrow> proc st' = ?r1" using fl' by blast
    show ?thesis unfolding linear_inv_def using dist a b c by blast
  next
    case True
    with rest [OF i_new] have
      comp: "completes js i st (fst (Classify js (d i) ?r1)) (snd (Classify js (d i) ?r1))"
      by auto
    then have comp': "completes js i st' (fst (Classify js (d i) ?r1)) (snd (Classify js (d i) ?r1))"
      by (rule completes_step_fwd [OF step])
    have lone: "\<And>j. j \<noteq> i \<Longrightarrow> \<not> in_flight (calls st j)" using only True by blast
    show ?thesis
    proof (cases "\<exists>res. calls st i = Unlocking res")
      case False
      then have fl': "in_flight (calls st' i)"
        using call_step_stays_in_flight [OF step True] by blast
      have a: "\<And>j res. (j, res) \<in> set (fst (serial js d order r0)) \<Longrightarrow> calls st' j = Returned res"
        using fin others i_new serial_owner by metis
      have b: "\<And>j. j \<notin> set order \<Longrightarrow>
           calls st' j = Start (d j) \<or>
           in_flight (calls st' j) \<and>
           completes js j st' (fst (Classify js (d j) ?r1)) (snd (Classify js (d j) ?r1))"
      proof -
        fix j assume j: "j \<notin> set order"
        show "calls st' j = Start (d j) \<or>
           in_flight (calls st' j) \<and>
           completes js j st' (fst (Classify js (d j) ?r1)) (snd (Classify js (d j) ?r1))"
        proof (cases "j = i")
          case True
          then show ?thesis using fl' comp' by simp
        next
          case False
          then show ?thesis using rest [OF j] lone others by auto
        qed
      qed
      have c: "(\<forall>j. \<not> in_flight (calls st' j)) \<Longrightarrow> proc st' = ?r1" using fl' by blast
      show ?thesis unfolding linear_inv_def using dist a b c by blast
    next
      case True
      then obtain res where u: "calls st i = Unlocking res" by blast
      from call_step_unlocking [OF step u] have r': "calls st' i = Returned res" by simp
      from completes_returned_eq [OF r' comp'] have
        res: "fst (Classify js (d i) ?r1) = res" and p': "snd (Classify js (d i) ?r1) = proc st'"
        by simp_all
      let ?order = "order @ [i]"
      have sn: "serial js d ?order r0 =
          (fst (serial js d order r0) @ [(i, res)], proc st')"
        by (simp add: serial_snoc res p')
      have dist': "distinct ?order" using dist i_new by simp
      have a: "\<And>j x. (j, x) \<in> set (fst (serial js d ?order r0)) \<Longrightarrow> calls st' j = Returned x"
      proof -
        fix j x assume "(j, x) \<in> set (fst (serial js d ?order r0))"
        then have "(j, x) \<in> set (fst (serial js d order r0)) \<or> (j = i \<and> x = res)"
          by (auto simp: sn)
        then show "calls st' j = Returned x"
          using fin others i_new serial_owner r' by metis
      qed
      have b: "\<And>j. j \<notin> set ?order \<Longrightarrow>
           calls st' j = Start (d j) \<or>
           in_flight (calls st' j) \<and>
           completes js j st' (fst (Classify js (d j) (snd (serial js d ?order r0))))
                               (snd (Classify js (d j) (snd (serial js d ?order r0))))"
      proof -
        fix j assume "j \<notin> set ?order"
        then have j: "j \<notin> set order" "j \<noteq> i" by simp_all
        with rest [OF j(1)] lone others show "calls st' j = Start (d j) \<or>
           in_flight (calls st' j) \<and>
           completes js j st' (fst (Classify js (d j) (snd (serial js d ?order r0))))
                               (snd (Classify js (d j) (snd (serial js d ?order r0))))"
          by auto
      qed
      have c: "(\<forall>j. \<not> in_flight (calls st' j)) \<Longrightarrow> proc st' = snd (serial js d ?order r0)"
        by (simp add: sn)
      show ?thesis unfolding linear_inv_def using dist' a b c by blast
    qed
  qed
qed

lemma run_calls_invs:
  "serial_inv st \<Longrightarrow> linear_inv js d r0 st \<Longrightarrow>
   serial_inv (run_calls js sch st) \<and> linear_inv js d r0 (run_calls js sch st)"
proof (induction sch arbitrary: st)
  case Nil
  then show ?case by simp
next
  case (Cons i sch)
  show ?case
  proof (cases "call_step js i st")
    case None
    then show ?thesis using Cons by simp
  next
    case (Some st')
    from call_step_inv [OF Cons.prems(1) Some] call_step_linear [OF Cons.prems Some]
    show ?thesis using Cons.IH [of st'] Some by simp
  qed
qed

lemmas callers_eval =
  call_step_def nextID_def conn_Write_def conn_ReadChunk_def conn_Read_def Let_def
  id_codec_def two_callers_def interleaved_def caller_data_def test_defs

lemma two_callers_run:
  "calls (run_calls id_codec interleaved two_callers) =
     (\<lambda>i. Start (caller_data i))
       (0 := Returned (Inr (test_response ok_status)),
        1 := Returned (Inl (Classifying ''boom'')))"
  "map fst (wire (run_calls id_codec interleaved two_callers)) = [0, 0, 1, 1, 1]"
  "map_option outbound (conn (proc (run_calls id_codec interleaved two_callers)))
     = Some [[123, 2, 125], [123, 3, 125]]"
  by (simp_all add: callers_eval)

text \<open>
  C9. Callers of \<^verbatim>\<open>Classify\<close> on one runner, each making one call, start with the mutex
  free and nothing yet on the wire. Whatever the schedule and however many callers: at
  every moment at most one call is in flight (between taking the mutex and releasing
  it); in the log of the operations on the connection the operations of each call stand
  together, so no write or read of one call falls between the write and the reads of
  another; and the calls that have returned are, with their results, exactly the calls
  of some order made one after the other with the sequential \<^verbatim>\<open>Classify\<close>, which, once
  no call is in flight, also leaves the runner, and with it the bytes sent to the model
  process, as that order does.
\<close>

theorem Classify_calls_are_serialized:
  assumes free: "\<not> mutex st0" and log: "wire st0 = []"
    and start: "\<forall>i. calls st0 i = Start (d i)"
  shows "(\<forall>i j. in_flight (calls (run_calls js sch st0) i) \<and>
                in_flight (calls (run_calls js sch st0) j) \<longrightarrow> i = j) \<and>
         in_blocks (map fst (wire (run_calls js sch st0))) \<and>
         (\<exists>order. distinct order \<and>
            (\<forall>i res. calls (run_calls js sch st0) i = Returned res \<longleftrightarrow>
                      (i, res) \<in> set (fst (serial js d order (proc st0)))) \<and>
            ((\<forall>i. \<not> in_flight (calls (run_calls js sch st0) i)) \<longrightarrow>
               proc (run_calls js sch st0) = snd (serial js d order (proc st0))))"
proof -
  let ?st = "run_calls js sch st0"
  have s0: "serial_inv st0"
    using free log start by (simp add: serial_inv_def)
  have l0: "linear_inv js d (proc st0) st0"
    unfolding linear_inv_def using start by (intro exI [of _ "[]"]) simp
  from run_calls_invs [OF s0 l0] have si: "serial_inv ?st" and li: "linear_inv js d (proc st0) ?st"
    by simp_all
  from si have one: "\<forall>i j. in_flight (calls ?st i) \<and> in_flight (calls ?st j) \<longrightarrow> i = j"
    and blocks: "in_blocks (map fst (wire ?st))"
    unfolding serial_inv_def by blast+
  from li obtain order where
    dist: "distinct order"
    and fin: "\<And>j res. (j, res) \<in> set (fst (serial js d order (proc st0))) \<Longrightarrow> calls ?st j = Returned res"
    and rest: "\<And>j. j \<notin> set order \<Longrightarrow> calls ?st j = Start (d j) \<or> in_flight (calls ?st j)"
    and quiet: "(\<forall>j. \<not> in_flight (calls ?st j)) \<longrightarrow> proc ?st = snd (serial js d order (proc st0))"
    unfolding linear_inv_def by blast
  have "calls ?st i = Returned res \<longleftrightarrow> (i, res) \<in> set (fst (serial js d order (proc st0)))"
    for i res
  proof
    assume r: "calls ?st i = Returned res"
    then have "i \<in> set order" using rest [of i] by auto
    then have "i \<in> set (map fst (fst (serial js d order (proc st0))))"
      by (simp add: map_fst_serial)
    then obtain res' where m: "(i, res') \<in> set (fst (serial js d order (proc st0)))" by auto
    with fin r have "res' = res" by fastforce
    with m show "(i, res) \<in> set (fst (serial js d order (proc st0)))" by simp
  next
    assume "(i, res) \<in> set (fst (serial js d order (proc st0)))"
    then show "calls ?st i = Returned res" by (rule fin)
  qed
  with dist quiet one blocks show ?thesis by blast
qed

theorem Classify_calls_are_serialized_witness:
  "calls (run_calls id_codec interleaved two_callers) 0 = Returned (Inr (test_response ok_status)) \<and>
   calls (run_calls id_codec interleaved two_callers) 1 = Returned (Inl (Classifying ''boom'')) \<and>
   in_blocks (map fst (wire (run_calls id_codec interleaved two_callers))) \<and>
   map fst (wire (run_calls id_codec interleaved two_callers)) = [0, 0, 1, 1, 1] \<and>
   map_option outbound (conn (proc (run_calls id_codec interleaved two_callers)))
     = Some [[123, 2, 125], [123, 3, 125]] \<and>
   (\<exists>order. distinct order \<and>
      (0, Inr (test_response ok_status))
        \<in> set (fst (serial id_codec caller_data order (proc two_callers))) \<and>
      (1, Inl (Classifying ''boom''))
        \<in> set (fst (serial id_codec caller_data order (proc two_callers))) \<and>
      proc (run_calls id_codec interleaved two_callers)
        = snd (serial id_codec caller_data order (proc two_callers)))"
proof -
  have free: "\<not> mutex two_callers" and log: "wire two_callers = []"
    and start: "\<forall>i. calls two_callers i = Start (caller_data i)"
    by (simp_all add: two_callers_def)
  have quiet: "\<forall>i. \<not> in_flight (calls (run_calls id_codec interleaved two_callers) i)"
    by (simp add: two_callers_run)
  have r0: "calls (run_calls id_codec interleaved two_callers) 0
              = Returned (Inr (test_response ok_status))"
    and r1: "calls (run_calls id_codec interleaved two_callers) 1
              = Returned (Inl (Classifying ''boom''))"
    by (simp_all add: two_callers_run)
  from Classify_calls_are_serialized [OF free log start, of id_codec interleaved]
  have blocks: "in_blocks (map fst (wire (run_calls id_codec interleaved two_callers)))"
    and ex: "\<exists>order. distinct order \<and>
       (\<forall>i res. calls (run_calls id_codec interleaved two_callers) i = Returned res \<longleftrightarrow>
                 (i, res) \<in> set (fst (serial id_codec caller_data order (proc two_callers)))) \<and>
       ((\<forall>i. \<not> in_flight (calls (run_calls id_codec interleaved two_callers) i)) \<longrightarrow>
          proc (run_calls id_codec interleaved two_callers)
            = snd (serial id_codec caller_data order (proc two_callers)))"
    by blast+
  from ex quiet r0 r1 have
    "\<exists>order. distinct order \<and>
      (0, Inr (test_response ok_status))
        \<in> set (fst (serial id_codec caller_data order (proc two_callers))) \<and>
      (1, Inl (Classifying ''boom''))
        \<in> set (fst (serial id_codec caller_data order (proc two_callers))) \<and>
      proc (run_calls id_codec interleaved two_callers)
        = snd (serial id_codec caller_data order (proc two_callers))"
    by blast
  with r0 r1 blocks two_callers_run(2,3) show ?thesis by blast
qed
end
